theory Spec2Isabelle
  imports Complex_Main
begin

text \<open>
  A model of the secret resolution core of dotsecrets: the key normalizer, the chainable
  value wrappers, the resolution cache with its provider, the access proxy, the bulk
  preload and the variable expansion of the configuration loader. Each definition
  follows the TypeScript function it is named after; a \<^verbatim>\<open>throw\<close> and a rejected
  promise are values \<open>Inl e\<close>, the mutable singletons are fields of a state that
  every operation takes and returns.
\<close>

section \<open>Strings and character classes\<close>

text \<open>
  A JavaScript string is modelled as a \<^typ>\<open>string\<close>: a list of code units, here the
  units below 256. Keys of secrets are ASCII in every source of the repository; the
  case mappings below move the 26 Latin letters and leave every other unit in place.
  The character classes are the bracket expressions of the regular expressions in
  \<^verbatim>\<open>src/utils/providers.ts\<close>, written as the list of their members.
\<close>

definition upperAZ :: string where
  "upperAZ = ''ABCDEFGHIJKLMNOPQRSTUVWXYZ''"

definition lowerAZ :: string where
  "lowerAZ = ''abcdefghijklmnopqrstuvwxyz''"

definition digits :: string where
  "digits = ''0123456789''"

definition isUpper :: "char \<Rightarrow> bool" where
  "isUpper c = (c \<in> set upperAZ)"

definition isLower :: "char \<Rightarrow> bool" where
  "isLower c = (c \<in> set lowerAZ)"

definition isDigit :: "char \<Rightarrow> bool" where
  "isDigit c = (c \<in> set digits)"

definition isAlnum :: "char \<Rightarrow> bool" where
  "isAlnum c = (isDigit c \<or> isUpper c \<or> isLower c)"

text \<open>\<^verbatim>\<open>\s\<close> and the units \<^verbatim>\<open>trim()\<close> removes: tab, line feed, vertical tab,
  form feed, carriage return, space and the no-break space.\<close>

definition isSpace :: "char \<Rightarrow> bool" where
  "isSpace c = (c \<in> {CHR 0x09, CHR 0x0A, CHR 0x0B, CHR 0x0C, CHR 0x0D, CHR 0x20, CHR 0xA0})"

text \<open>The units the dot of a regular expression does not match.\<close>

definition isLineTerminator :: "char \<Rightarrow> bool" where
  "isLineTerminator c = (c \<in> {CHR 0x0A, CHR 0x0D})"

definition toUpperCase :: "string \<Rightarrow> string" where
  "toUpperCase s = map (\<lambda>c. case map_of (zip lowerAZ upperAZ) c of Some u \<Rightarrow> u | None \<Rightarrow> c) s"

definition toLowerCase :: "string \<Rightarrow> string" where
  "toLowerCase s = map (\<lambda>c. case map_of (zip upperAZ lowerAZ) c of Some l \<Rightarrow> l | None \<Rightarrow> c) s"

definition trim :: "string \<Rightarrow> string" where
  "trim s = rev (dropWhile isSpace (rev (dropWhile isSpace s)))"

definition startsWith :: "string \<Rightarrow> string \<Rightarrow> bool" where
  "startsWith s p = (take (length p) s = p)"

section \<open>Key normalizer (src/utils/providers.ts)\<close>

datatype Provider =
  azure | bytehide | aws | gcp | ibm | doppler | cyberark | akeyless
  | hashicorp | keeper | onepassword | env

text \<open>\<^verbatim>\<open>providerMap\<close>: the display name of a plugin to its provider; a name that is
  not a key of the table reads as \<^verbatim>\<open>undefined\<close>.\<close>

definition providerMap :: "string \<Rightarrow> Provider option" where
  "providerMap = map_of
     [(''AWS Secrets Manager'', aws),
      (''ByteHide Secrets'', bytehide),
      (''Azure Key Vault'', azure),
      (''Local Secrets'', env),
      (''HashiCorp Vault'', hashicorp),
      (''1Password'', onepassword),
      (''Google Cloud Secret Manager'', gcp),
      (''IBM Secrets Manager'', ibm),
      (''Keeper Secrets Manager'', keeper),
      (''Doppler Secrets Manager'', doppler)]"

text \<open>The bracket expressions of the validators and of the normalizer.\<close>

definition azureChar :: "char \<Rightarrow> bool" where
  "azureChar c = (isAlnum c \<or> c = CHR ''-'')"

definition awsChar :: "char \<Rightarrow> bool" where
  "awsChar c = (isAlnum c \<or> c \<in> set ''_+=.@-'')"

definition gcpChar :: "char \<Rightarrow> bool" where
  "gcpChar c = (isAlnum c \<or> c \<in> set ''_-'')"

definition ibmChar :: "char \<Rightarrow> bool" where
  "ibmChar c = (isAlnum c \<or> c \<in> set ''_.-'')"

definition dopplerChar :: "char \<Rightarrow> bool" where
  "dopplerChar c = (isUpper c \<or> isDigit c \<or> c = CHR ''_'')"

definition hashicorpChar :: "char \<Rightarrow> bool" where
  "hashicorpChar c = (isAlnum c \<or> c \<in> set ''-/'')"

definition envChar :: "char \<Rightarrow> bool" where
  "envChar c = (isAlnum c \<or> c = CHR ''_'')"

text \<open>
  \<^verbatim>\<open>validators[provider].test(name)\<close>, one equation per regular expression. Every
  expression is anchored at both ends and has no flag, so the test is a property of the
  whole string.
\<close>

fun validateSecretName :: "Provider \<Rightarrow> string \<Rightarrow> bool" where
  "validateSecretName azure name =
     (case name of [] \<Rightarrow> False
      | c # r \<Rightarrow> isAlnum c \<and>
          (r = [] \<or> (length (butlast r) \<le> 125 \<and> list_all azureChar (butlast r) \<and> isAlnum (last r))))"
| "validateSecretName bytehide name =
     (case name of [] \<Rightarrow> False
      | c # r \<Rightarrow> isAlnum c \<and>
          (r = [] \<or> (length (butlast r) \<le> 125 \<and> list_all azureChar (butlast r) \<and> isAlnum (last r))))"
| "validateSecretName aws name =
     (1 \<le> length name \<and> length name \<le> 512 \<and> list_all awsChar name)"
| "validateSecretName gcp name =
     (1 \<le> length name \<and> length name \<le> 255 \<and> list_all gcpChar name)"
| "validateSecretName ibm name =
     (case name of [] \<Rightarrow> False
      | c # r \<Rightarrow> isAlnum c \<and> r \<noteq> [] \<and> length (butlast r) \<le> 254 \<and>
          list_all ibmChar (butlast r) \<and> isAlnum (last r))"
| "validateSecretName doppler name =
     (case name of [] \<Rightarrow> False | c # r \<Rightarrow> isUpper c \<and> list_all dopplerChar r)"
| "validateSecretName cyberark name =
     (1 \<le> length name \<and> length name \<le> 28 \<and> list_all isAlnum name)"
| "validateSecretName akeyless name =
     (name \<noteq> [] \<and> list_all (\<lambda>c. \<not> isLineTerminator c) name)"
| "validateSecretName hashicorp name =
     (case name of [] \<Rightarrow> False
      | c # r \<Rightarrow> isAlnum c \<and> r \<noteq> [] \<and> list_all hashicorpChar (butlast r) \<and> isAlnum (last r))"
| "validateSecretName keeper name =
     (name \<noteq> [] \<and> list_all (\<lambda>c. \<not> isLineTerminator c) name)"
| "validateSecretName onepassword name =
     (name \<noteq> [] \<and> list_all (\<lambda>c. \<not> isLineTerminator c) name)"
| "validateSecretName env name =
     (case name of [] \<Rightarrow> False
      | c # r \<Rightarrow> (isUpper c \<or> isLower c \<or> c = CHR ''_'') \<and> list_all envChar r)"

text \<open>
  The \<^verbatim>\<open>replace\<close> calls of the normalizer, each with the \<^verbatim>\<open>g\<close> flag:
  \<^item> \<^verbatim>\<open>replace(/[^...]/g, "")\<close> keeps the members of the class: \<^const>\<open>filter\<close>;
  \<^item> \<^verbatim>\<open>replace(/[^...]/g, "_")\<close> and \<^verbatim>\<open>replace(/-/g, "_")\<close> rewrite unit by unit: \<^const>\<open>map\<close>;
  \<^item> \<^verbatim>\<open>replace(/[...]+/g, "-")\<close> rewrites every maximal run: \<open>replaceRuns\<close>;
  \<^item> \<^verbatim>\<open>replace(/^[...]+|[...]+$/g, "")\<close> drops the run at the start and the run at
    the end: \<open>stripEnds\<close>.
\<close>

function replaceRuns :: "(char \<Rightarrow> bool) \<Rightarrow> string \<Rightarrow> string \<Rightarrow> string" where
  "replaceRuns P rep [] = []"
| "replaceRuns P rep (c # cs) =
     (if P c then rep @ replaceRuns P rep (dropWhile P cs) else c # replaceRuns P rep cs)"
  by pat_completeness auto
termination
  by (relation "measure (\<lambda>(P, rep, s). length s)")
     (auto simp: le_imp_less_Suc length_dropWhile_le)

definition stripEnds :: "(char \<Rightarrow> bool) \<Rightarrow> string \<Rightarrow> string" where
  "stripEnds P s = rev (dropWhile P (rev (dropWhile P s)))"

text \<open>
  Doppler's last step is \<^verbatim>\<open>replace(/(^[^A-Z]|[^A-Z0-9_]$)+/g, "")\<close>. Without the
  \<^verbatim>\<open>m\<close> flag \<^verbatim>\<open>^\<close> holds at index 0 only and \<^verbatim>\<open>$\<close> at the end only, so the
  expression can match one unit at index 0 (not in A-Z) and one unit at the last index
  (not in A-Z0-9_), and nothing in between.
\<close>

definition dopplerStrip :: "string \<Rightarrow> string" where
  "dopplerStrip s =
     (let s1 = (case s of [] \<Rightarrow> [] | c # cs \<Rightarrow> if isUpper c then s else cs)
      in if s1 \<noteq> [] \<and> \<not> dopplerChar (last s1) then butlast s1 else s1)"

fun normalizeSecretName :: "Provider \<Rightarrow> string \<Rightarrow> string" where
  "normalizeSecretName env key = toUpperCase (trim key)"
| "normalizeSecretName doppler key =
     dopplerStrip (map (\<lambda>c. if dopplerChar c then c else CHR ''_'') (toUpperCase (trim key)))"
| "normalizeSecretName aws key =
     map (\<lambda>c. if c = CHR ''-'' then CHR ''_'' else c) (filter awsChar (toLowerCase (trim key)))"
| "normalizeSecretName gcp key = take 255 (filter gcpChar (trim key))"
| "normalizeSecretName azure key =
     stripEnds (\<lambda>c. c = CHR ''-'')
       (replaceRuns (\<lambda>c. c = CHR ''-'') ''-''
         (filter (\<lambda>c. isLower c \<or> isDigit c \<or> c = CHR ''-'')
           (replaceRuns (\<lambda>c. c = CHR ''_'' \<or> isSpace c) ''-'' (toLowerCase (trim key)))))"
| "normalizeSecretName bytehide key =
     stripEnds (\<lambda>c. c = CHR ''-'')
       (replaceRuns (\<lambda>c. c = CHR ''-'') ''-''
         (filter (\<lambda>c. isLower c \<or> isDigit c \<or> c = CHR ''-'')
           (replaceRuns (\<lambda>c. c = CHR ''_'' \<or> isSpace c) ''-'' (toLowerCase (trim key)))))"
| "normalizeSecretName ibm key =
     stripEnds (\<lambda>c. c \<in> set ''-._'')
       (filter (\<lambda>c. isLower c \<or> isDigit c \<or> c \<in> set ''_.-'') (toLowerCase (trim key)))"
| "normalizeSecretName hashicorp key =
     stripEnds (\<lambda>c. c \<in> set ''-/'')
       (filter (\<lambda>c. isLower c \<or> isDigit c \<or> c \<in> set ''-/'') (toLowerCase (trim key)))"
| "normalizeSecretName akeyless key = filter hashicorpChar (trim key)"
| "normalizeSecretName cyberark key = take 28 (filter isAlnum (trim key))"
| "normalizeSecretName keeper key = trim key"
| "normalizeSecretName onepassword key = trim key"

section \<open>Numbers, errors and promises\<close>

text \<open>
  A JavaScript number is NaN, an infinity or a finite double; a finite double is the
  rational it denotes (the two zeros are one value, as they are for every comparison).
  \<^verbatim>\<open><\<close> and \<^verbatim>\<open>>\<close> are false as soon as one side is NaN.
\<close>

datatype jsnum = NaN | NegInf | Fin rat | PosInf

fun js_lt :: "jsnum \<Rightarrow> jsnum \<Rightarrow> bool" where
  "js_lt NaN b = False"
| "js_lt a NaN = False"
| "js_lt NegInf NegInf = False"
| "js_lt NegInf b = True"
| "js_lt (Fin x) NegInf = False"
| "js_lt (Fin x) (Fin y) = (x < y)"
| "js_lt (Fin x) PosInf = True"
| "js_lt PosInf b = False"

definition js_gt :: "jsnum \<Rightarrow> jsnum \<Rightarrow> bool" where
  "js_gt a b = js_lt b a"

text \<open>\<^verbatim>\<open>a <= b\<close> and \<^verbatim>\<open>a >= b\<close>: neither side NaN and the strict comparison the
  other way round false.\<close>

definition js_le :: "jsnum \<Rightarrow> jsnum \<Rightarrow> bool" where
  "js_le a b = (a \<noteq> NaN \<and> b \<noteq> NaN \<and> \<not> js_lt b a)"

definition js_ge :: "jsnum \<Rightarrow> jsnum \<Rightarrow> bool" where
  "js_ge a b = js_le b a"

definition isNaN :: "jsnum \<Rightarrow> bool" where
  "isNaN v = (v = NaN)"

definition isInteger :: "jsnum \<Rightarrow> bool" where
  "isInteger v = (case v of Fin x \<Rightarrow> x = of_int \<lfloor>x\<rfloor> | _ \<Rightarrow> False)"

text \<open>The \<^verbatim>\<open>length\<close> of a string, as a number.\<close>

definition strlen :: "string \<Rightarrow> jsnum" where
  "strlen s = Fin (of_nat (length s))"

text \<open>
  Every \<^verbatim>\<open>throw new Error(...)\<close> of the wrapper classes, one constructor per message,
  with the values the message interpolates; \<open>CustomMessage\<close> is the caller's own
  message of \<^verbatim>\<open>regex(pattern, msg)\<close>. \<open>TypeError\<close> is the read of \<^verbatim>\<open>.test\<close> on an
  undefined validator, \<open>ProviderFailure\<close> the reason a provider's promise rejects
  with, and \<open>ConfigFailure\<close> what the configuration loader throws (a file it cannot
  read, the \<^verbatim>\<open>throw\<close> of \<^verbatim>\<open>decryptData\<close>).
\<close>

datatype error =
    RequiredNotAvailable
  | RequiredEmptyString
  | StringEmpty
  | LengthOutOfRange jsnum jsnum
  | RegexMismatch
  | CustomMessage string
  | CannotConvertNumber string
  | CannotConvertBoolean string
  | NumberRequired
  | LessThanMin jsnum jsnum
  | GreaterThanMax jsnum jsnum
  | NumberOutOfRange jsnum jsnum jsnum
  | NotPositive jsnum
  | NotNegative jsnum
  | NotInteger jsnum
  | BooleanRequired
  | NotTrue bool
  | NotFalse bool
  | SyncAccessWithoutPreload string
  | TypeError
  | ProviderFailure string
  | ConfigFailure string

text \<open>
  A promise is modelled by the way it settles: \<open>Inr v\<close> fulfilled with \<open>v\<close>,
  \<open>Inl e\<close> rejected with \<open>e\<close>. \<^verbatim>\<open>p.then(f)\<close> with one callback runs \<open>f\<close> on the
  value of a fulfilled promise and passes a rejection on; a \<^verbatim>\<open>throw\<close> inside the
  callback is the \<open>Inl\<close> it returns.
\<close>

definition thenP :: "error + 'a \<Rightarrow> ('a \<Rightarrow> error + 'b) \<Rightarrow> error + 'b" where
  "thenP p f = (case p of Inl e \<Rightarrow> Inl e | Inr v \<Rightarrow> f v)"

section \<open>Chainable value wrappers (src/secretsProxy.ts)\<close>

text \<open>
  The three fields of the constructor of \<^verbatim>\<open>SecretValue\<close>, \<^verbatim>\<open>NumberSecretValue\<close> and
  \<^verbatim>\<open>BooleanSecretValue\<close>. A method that throws returns \<open>Inl\<close>; a method that
  returns builds a new wrapper. The calls to \<^verbatim>\<open>ConsoleUtils.error\<close> before each
  \<^verbatim>\<open>throw\<close> only write to the console and are left out, and so is \<^verbatim>\<open>JsonSecretValue\<close>,
  which rests on \<^verbatim>\<open>JSON.parse\<close>.
\<close>

record 'a SecretWrapper =
  secretName :: string
  syncValue :: "'a option"
  asyncValue :: "error + 'a"

type_synonym SecretValue = "string SecretWrapper"
type_synonym NumberSecretValue = "jsnum SecretWrapper"
type_synonym BooleanSecretValue = "bool SecretWrapper"

text \<open>\<^verbatim>\<open>await w\<close>: the method \<^verbatim>\<open>then\<close> hands its callbacks to \<^verbatim>\<open>asyncValue\<close>.\<close>

definition await :: "'a SecretWrapper \<Rightarrow> error + 'a" where
  "await w = asyncValue w"

definition parseBoolean :: "string \<Rightarrow> bool option" where
  "parseBoolean str =
     (let lower = toLowerCase str
      in if lower = ''true'' then Some True
         else if lower = ''false'' then Some False
         else None)"

subsection \<open>SecretValue\<close>

definition SecretValue_required :: "SecretValue \<Rightarrow> error + SecretValue" where
  "SecretValue_required w =
     (let newAsync = thenP (asyncValue w)
            (\<lambda>val. if val = '''' then Inl RequiredEmptyString else Inr val)
      in case syncValue w of
           Some newSync \<Rightarrow>
             if newSync = '''' then Inl RequiredNotAvailable
             else Inr \<lparr>secretName = secretName w, syncValue = Some newSync, asyncValue = newAsync\<rparr>
         | None \<Rightarrow> Inr \<lparr>secretName = secretName w, syncValue = None, asyncValue = newAsync\<rparr>)"

definition SecretValue_notEmpty :: "SecretValue \<Rightarrow> error + SecretValue" where
  "SecretValue_notEmpty w =
     (let newAsync = thenP (asyncValue w)
            (\<lambda>val. if length val = 0 then Inl StringEmpty else Inr val)
      in case syncValue w of
           Some newSync \<Rightarrow>
             if length newSync = 0 then Inl StringEmpty
             else Inr \<lparr>secretName = secretName w, syncValue = Some newSync, asyncValue = newAsync\<rparr>
         | None \<Rightarrow> Inr \<lparr>secretName = secretName w, syncValue = None, asyncValue = newAsync\<rparr>)"

definition SecretValue_trim :: "SecretValue \<Rightarrow> SecretValue" where
  "SecretValue_trim w =
     \<lparr>secretName = secretName w, syncValue = map_option trim (syncValue w),
      asyncValue = thenP (asyncValue w) (\<lambda>val. Inr (trim val))\<rparr>"

definition SecretValue_lengthBetween :: "jsnum \<Rightarrow> jsnum \<Rightarrow> SecretValue \<Rightarrow> error + SecretValue" where
  "SecretValue_lengthBetween lo hi w =
     (let newAsync = thenP (asyncValue w)
            (\<lambda>val. if js_lt (strlen val) lo \<or> js_gt (strlen val) hi
                   then Inl (LengthOutOfRange lo hi) else Inr val)
      in case syncValue w of
           Some newSync \<Rightarrow>
             if js_lt (strlen newSync) lo \<or> js_gt (strlen newSync) hi
             then Inl (LengthOutOfRange lo hi)
             else Inr \<lparr>secretName = secretName w, syncValue = Some newSync, asyncValue = newAsync\<rparr>
         | None \<Rightarrow> Inr \<lparr>secretName = secretName w, syncValue = None, asyncValue = newAsync\<rparr>)"

text \<open>
  A regular expression object, as far as \<^verbatim>\<open>test\<close> goes. \<open>matchAt s i\<close> is the
  search of the pattern in \<open>s\<close> from position \<open>i\<close>: the position after the match it
  finds, or nothing (the pattern with its matcher is given). \<open>globalOrSticky\<close> says
  that the expression has the flag \<^verbatim>\<open>g\<close> or \<^verbatim>\<open>y\<close>, and \<open>lastIndex\<close> is the property
  of that name. Without such a flag \<^verbatim>\<open>test\<close> searches from the start and leaves
  \<^verbatim>\<open>lastIndex\<close> alone. With one it searches from \<^verbatim>\<open>lastIndex\<close> and then sets
  \<^verbatim>\<open>lastIndex\<close> to the position after the match, or to 0 when there is no match or
  \<^verbatim>\<open>lastIndex\<close> is past the end of the string.
\<close>

record RegExp =
  matchAt :: "string \<Rightarrow> nat \<Rightarrow> nat option"
  globalOrSticky :: bool
  lastIndex :: nat

definition RegExp_test :: "RegExp \<Rightarrow> string \<Rightarrow> bool \<times> RegExp" where
  "RegExp_test re s =
     (if globalOrSticky re
      then (if lastIndex re > length s then (False, re\<lparr>lastIndex := 0\<rparr>)
            else case matchAt re s (lastIndex re) of
                   None \<Rightarrow> (False, re\<lparr>lastIndex := 0\<rparr>)
                 | Some e \<Rightarrow> (True, re\<lparr>lastIndex := e\<rparr>))
      else (matchAt re s 0 \<noteq> None, re))"

text \<open>
  \<^verbatim>\<open>regex(pattern, msg)\<close> calls \<^verbatim>\<open>pattern.test\<close> on the synchronous value, when there
  is one, and again on the awaited value, on the same object. The result carries the
  expression as the two calls leave it, the second made when the promise is fulfilled;
  nothing else uses the expression in between. The error is \<^verbatim>\<open>msg || default\<close>: the
  default when \<open>msg\<close> is missing or empty.
\<close>

definition regexError :: "string option \<Rightarrow> error" where
  "regexError msg =
     (case msg of None \<Rightarrow> RegexMismatch
      | Some m \<Rightarrow> if m = '''' then RegexMismatch else CustomMessage m)"

definition SecretValue_regex ::
  "RegExp \<Rightarrow> string option \<Rightarrow> SecretValue \<Rightarrow> (error + SecretValue) \<times> RegExp" where
  "SecretValue_regex pattern msg w =
     (let (syncOk, pattern1) =
            (case syncValue w of
               Some newSync \<Rightarrow> RegExp_test pattern newSync
             | None \<Rightarrow> (True, pattern))
      in if \<not> syncOk then (Inl (regexError msg), pattern1)
         else (let newAsync = thenP (asyncValue w)
                     (\<lambda>val. if \<not> fst (RegExp_test pattern1 val)
                            then Inl (regexError msg) else Inr val);
                   pattern2 = (case asyncValue w of
                                 Inl e \<Rightarrow> pattern1
                               | Inr val \<Rightarrow> snd (RegExp_test pattern1 val))
               in (Inr \<lparr>secretName = secretName w, syncValue = syncValue w,
                         asyncValue = newAsync\<rparr>, pattern2)))"

text \<open>
  \<^verbatim>\<open>number()\<close>: \<open>Number\<close> is JavaScript's conversion \<^verbatim>\<open>Number(string)\<close>, a parameter
  of the model (it rounds to a double).
\<close>

definition SecretValue_number :: "(string \<Rightarrow> jsnum) \<Rightarrow> SecretValue \<Rightarrow> error + NumberSecretValue" where
  "SecretValue_number Number w =
     (let newAsync = thenP (asyncValue w)
            (\<lambda>val. let parsed = Number val
                   in if isNaN parsed then Inl (CannotConvertNumber val) else Inr parsed)
      in case syncValue w of
           Some s \<Rightarrow>
             (let parsed = Number s
              in if isNaN parsed then Inl (CannotConvertNumber s)
                 else Inr \<lparr>secretName = secretName w, syncValue = Some parsed, asyncValue = newAsync\<rparr>)
         | None \<Rightarrow> Inr \<lparr>secretName = secretName w, syncValue = None, asyncValue = newAsync\<rparr>)"

definition SecretValue_boolean :: "SecretValue \<Rightarrow> error + BooleanSecretValue" where
  "SecretValue_boolean w =
     (let newAsync = thenP (asyncValue w)
            (\<lambda>val. case parseBoolean val of
                     None \<Rightarrow> Inl (CannotConvertBoolean val)
                   | Some b \<Rightarrow> Inr b)
      in case syncValue w of
           Some s \<Rightarrow>
             (case parseBoolean s of
                None \<Rightarrow> Inl (CannotConvertBoolean s)
              | Some b \<Rightarrow> Inr \<lparr>secretName = secretName w, syncValue = Some b, asyncValue = newAsync\<rparr>)
         | None \<Rightarrow> Inr \<lparr>secretName = secretName w, syncValue = None, asyncValue = newAsync\<rparr>)"

text \<open>\<^verbatim>\<open>valueOf()\<close>, which \<^verbatim>\<open>toString()\<close> and \<^verbatim>\<open>[Symbol.toPrimitive]()\<close> of
  \<^verbatim>\<open>SecretValue\<close> return unchanged.\<close>

definition valueOf :: "'a SecretWrapper \<Rightarrow> error + 'a" where
  "valueOf w =
     (case syncValue w of
        None \<Rightarrow> Inl (SyncAccessWithoutPreload (secretName w))
      | Some v \<Rightarrow> Inr v)"

definition SecretValue_toString :: "SecretValue \<Rightarrow> error + string" where
  "SecretValue_toString w = valueOf w"

definition SecretValue_toPrimitive :: "SecretValue \<Rightarrow> error + string" where
  "SecretValue_toPrimitive w = valueOf w"

subsection \<open>NumberSecretValue\<close>

text \<open>\<^verbatim>\<open>required()\<close> of a number checks the awaited value only (undefined, null or NaN;
  a value of the number type is neither of the first two).\<close>

definition NumberSecretValue_required :: "NumberSecretValue \<Rightarrow> error + NumberSecretValue" where
  "NumberSecretValue_required w =
     Inr \<lparr>secretName = secretName w, syncValue = syncValue w,
          asyncValue = thenP (asyncValue w)
            (\<lambda>val. if isNaN val then Inl NumberRequired else Inr val)\<rparr>"

definition NumberSecretValue_min :: "jsnum \<Rightarrow> NumberSecretValue \<Rightarrow> error + NumberSecretValue" where
  "NumberSecretValue_min n w =
     (let newAsync = thenP (asyncValue w)
            (\<lambda>val. if js_lt val n then Inl (LessThanMin val n) else Inr val)
      in case syncValue w of
           Some newSync \<Rightarrow>
             if js_lt newSync n then Inl (LessThanMin newSync n)
             else Inr \<lparr>secretName = secretName w, syncValue = Some newSync, asyncValue = newAsync\<rparr>
         | None \<Rightarrow> Inr \<lparr>secretName = secretName w, syncValue = None, asyncValue = newAsync\<rparr>)"

definition NumberSecretValue_max :: "jsnum \<Rightarrow> NumberSecretValue \<Rightarrow> error + NumberSecretValue" where
  "NumberSecretValue_max n w =
     (let newAsync = thenP (asyncValue w)
            (\<lambda>val. if js_gt val n then Inl (GreaterThanMax val n) else Inr val)
      in case syncValue w of
           Some newSync \<Rightarrow>
             if js_gt newSync n then Inl (GreaterThanMax newSync n)
             else Inr \<lparr>secretName = secretName w, syncValue = Some newSync, asyncValue = newAsync\<rparr>
         | None \<Rightarrow> Inr \<lparr>secretName = secretName w, syncValue = None, asyncValue = newAsync\<rparr>)"

definition NumberSecretValue_between :: "jsnum \<Rightarrow> jsnum \<Rightarrow> NumberSecretValue \<Rightarrow> error + NumberSecretValue" where
  "NumberSecretValue_between lo hi w =
     (let newAsync = thenP (asyncValue w)
            (\<lambda>val. if js_lt val lo \<or> js_gt val hi
                   then Inl (NumberOutOfRange val lo hi) else Inr val)
      in case syncValue w of
           Some newSync \<Rightarrow>
             if js_lt newSync lo \<or> js_gt newSync hi
             then Inl (NumberOutOfRange newSync lo hi)
             else Inr \<lparr>secretName = secretName w, syncValue = Some newSync, asyncValue = newAsync\<rparr>
         | None \<Rightarrow> Inr \<lparr>secretName = secretName w, syncValue = None, asyncValue = newAsync\<rparr>)"

definition NumberSecretValue_positive :: "NumberSecretValue \<Rightarrow> error + NumberSecretValue" where
  "NumberSecretValue_positive w =
     (let newAsync = thenP (asyncValue w)
            (\<lambda>val. if js_le val (Fin 0) then Inl (NotPositive val) else Inr val)
      in case syncValue w of
           Some newSync \<Rightarrow>
             if js_le newSync (Fin 0) then Inl (NotPositive newSync)
             else Inr \<lparr>secretName = secretName w, syncValue = Some newSync, asyncValue = newAsync\<rparr>
         | None \<Rightarrow> Inr \<lparr>secretName = secretName w, syncValue = None, asyncValue = newAsync\<rparr>)"

definition NumberSecretValue_negative :: "NumberSecretValue \<Rightarrow> error + NumberSecretValue" where
  "NumberSecretValue_negative w =
     (let newAsync = thenP (asyncValue w)
            (\<lambda>val. if js_ge val (Fin 0) then Inl (NotNegative val) else Inr val)
      in case syncValue w of
           Some newSync \<Rightarrow>
             if js_ge newSync (Fin 0) then Inl (NotNegative newSync)
             else Inr \<lparr>secretName = secretName w, syncValue = Some newSync, asyncValue = newAsync\<rparr>
         | None \<Rightarrow> Inr \<lparr>secretName = secretName w, syncValue = None, asyncValue = newAsync\<rparr>)"

definition NumberSecretValue_integer :: "NumberSecretValue \<Rightarrow> error + NumberSecretValue" where
  "NumberSecretValue_integer w =
     (let newAsync = thenP (asyncValue w)
            (\<lambda>val. if \<not> isInteger val then Inl (NotInteger val) else Inr val)
      in case syncValue w of
           Some newSync \<Rightarrow>
             if \<not> isInteger newSync then Inl (NotInteger newSync)
             else Inr \<lparr>secretName = secretName w, syncValue = Some newSync, asyncValue = newAsync\<rparr>
         | None \<Rightarrow> Inr \<lparr>secretName = secretName w, syncValue = None, asyncValue = newAsync\<rparr>)"

subsection \<open>BooleanSecretValue\<close>

definition BooleanSecretValue_required :: "BooleanSecretValue \<Rightarrow> error + BooleanSecretValue" where
  "BooleanSecretValue_required w =
     (if syncValue w = None then Inl BooleanRequired
      else Inr \<lparr>secretName = secretName w, syncValue = syncValue w, asyncValue = asyncValue w\<rparr>)"

definition BooleanSecretValue_true :: "BooleanSecretValue \<Rightarrow> error + BooleanSecretValue" where
  "BooleanSecretValue_true w =
     (let newAsync = thenP (asyncValue w)
            (\<lambda>val. if val \<noteq> True then Inl (NotTrue val) else Inr val)
      in case syncValue w of
           Some newSync \<Rightarrow>
             if newSync \<noteq> True then Inl (NotTrue newSync)
             else Inr \<lparr>secretName = secretName w, syncValue = Some newSync, asyncValue = newAsync\<rparr>
         | None \<Rightarrow> Inr \<lparr>secretName = secretName w, syncValue = None, asyncValue = newAsync\<rparr>)"

definition BooleanSecretValue_false :: "BooleanSecretValue \<Rightarrow> error + BooleanSecretValue" where
  "BooleanSecretValue_false w =
     (let newAsync = thenP (asyncValue w)
            (\<lambda>val. if val \<noteq> False then Inl (NotFalse val) else Inr val)
      in case syncValue w of
           Some newSync \<Rightarrow>
             if newSync \<noteq> False then Inl (NotFalse newSync)
             else Inr \<lparr>secretName = secretName w, syncValue = Some newSync, asyncValue = newAsync\<rparr>
         | None \<Rightarrow> Inr \<lparr>secretName = secretName w, syncValue = None, asyncValue = newAsync\<rparr>)"
section \<open>Resolution cache (src/secretsManager.ts) and access proxy\<close>

text \<open>
  A provider plugin: its display name and its \<^verbatim>\<open>getSecret\<close>, given by the way the
  promise it returns settles (\<open>Inr None\<close> is a promise fulfilled with
  \<^verbatim>\<open>undefined\<close>). The provider answers a key the same way each time it is asked.
\<close>

record Plugin =
  pluginName :: string
  getSecret :: "string \<Rightarrow> error + string option"

text \<open>
  What the call \<^verbatim>\<open>config({ override: true, expand: true })\<close> of \<^verbatim>\<open>initialize\<close> does: it
  returns a record, given as the list of its entries in the order \<^verbatim>\<open>for ... in\<close> visits
  them; or it throws (\<^verbatim>\<open>readFileSync\<close>, the \<^verbatim>\<open>throw\<close> of \<^verbatim>\<open>decryptData\<close>); or it
  does not return (\<^verbatim>\<open>expandVariables\<close> on a record whose passes never stop changing).
  The loader reads files, so which of the three happens is given.
\<close>

datatype ConfigOutcome =
    ConfigReturns "(string \<times> string) list"
  | ConfigThrows error
  | ConfigHangs

text \<open>
  The state of the process: the fields of the singleton \<^verbatim>\<open>SecretsManager\<close>, the flag
  \<^verbatim>\<open>preloadExecuted\<close> of the proxy module, and three parts of the environment:
  \<^item> \<open>configOutcome\<close>, what \<^verbatim>\<open>config\<close> does when \<^verbatim>\<open>initialize\<close> calls it;
  \<^item> \<open>fetched\<close>, the calls made to \<^verbatim>\<open>plugin.getSecret\<close> so far, oldest first: the
    key \<^verbatim>\<open>loadSecret\<close> was asked for and the name sent to the provider;
  \<^item> \<open>inFlight\<close>, the calls of \<^verbatim>\<open>loadSecret\<close> that are suspended at
    \<^verbatim>\<open>await this.plugin.getSecret(providerSecret)\<close> while their caller has gone on:
    the key, and the way the provider's promise settles.
\<close>

record World =
  cache :: "string \<rightharpoonup> string"
  publicCache :: "string \<rightharpoonup> string"
  plugin :: Plugin
  initialized :: bool
  preloadExecuted :: bool
  configOutcome :: ConfigOutcome
  fetched :: "(string \<times> string) list"
  inFlight :: "(string \<times> (error + string option)) list"

text \<open>
  What a call does, from a state: \<open>Some (Inr v, st')\<close> when it returns \<open>v\<close> (for an
  \<^verbatim>\<open>async\<close> function: when its promise is fulfilled with \<open>v\<close>) and leaves the state
  \<open>st'\<close>; \<open>Some (Inl e, st')\<close> when it throws \<open>e\<close> (when its promise rejects with
  \<open>e\<close>); \<open>None\<close> when the call never returns.
\<close>

type_synonym 'a outcome = "((error + 'a) \<times> World) option"

text \<open>
  \<^verbatim>\<open>initialize\<close> sets \<^verbatim>\<open>initialized\<close> before it calls \<^verbatim>\<open>config\<close>: when \<^verbatim>\<open>config\<close>
  throws, the flag stays set and the caches stay as they were. \<open>storeSecret\<close> is the
  body of its \<^verbatim>\<open>for ... in\<close>, which puts an entry into one of the two caches.
\<close>

definition storeSecret :: "string \<times> string \<Rightarrow> World \<Rightarrow> World" where
  "storeSecret = (\<lambda>(key, v) s.
     if startsWith key ''PUBLIC_''
     then s\<lparr>publicCache := (publicCache s)(key \<mapsto> v)\<rparr>
     else s\<lparr>cache := (cache s)(key \<mapsto> v)\<rparr>)"

definition initialize :: "World \<Rightarrow> unit outcome" where
  "initialize st =
     (if initialized st then Some (Inr (), st)
      else (let st1 = st\<lparr>initialized := True\<rparr>
            in case configOutcome st of
                 ConfigHangs \<Rightarrow> None
               | ConfigThrows e \<Rightarrow> Some (Inl e, st1)
               | ConfigReturns secrets \<Rightarrow> Some (Inr (), fold storeSecret secrets st1)))"

definition setSecretsPlugin :: "Plugin \<Rightarrow> World \<Rightarrow> World" where
  "setSecretsPlugin p st = st\<lparr>plugin := p\<rparr>"

definition getSecretSync :: "World \<Rightarrow> string \<Rightarrow> string option outcome" where
  "getSecretSync st key =
     (case initialize st of
        None \<Rightarrow> None
      | Some (Inl e, st1) \<Rightarrow> Some (Inl e, st1)
      | Some (Inr u, st1) \<Rightarrow> Some (Inr (cache st1 key), st1))"

definition getPublicSync :: "World \<Rightarrow> string \<Rightarrow> string option outcome" where
  "getPublicSync st key =
     (case initialize st of
        None \<Rightarrow> None
      | Some (Inl e, st1) \<Rightarrow> Some (Inl e, st1)
      | Some (Inr u, st1) \<Rightarrow> Some (Inr (publicCache st1 key), st1))"

text \<open>
  \<^verbatim>\<open>loadSecret\<close> is an \<^verbatim>\<open>async\<close> function with one \<^verbatim>\<open>await\<close>. \<open>loadSecret_start\<close> is
  its body up to there, which runs inside the call: the promise returned is either
  settled already (\<open>Ready\<close>: a \<^verbatim>\<open>throw\<close> of \<^verbatim>\<open>initialize\<close>, a cache hit, or a plugin
  whose name is not in \<^verbatim>\<open>providerMap\<close>, for which the validator read is \<^verbatim>\<open>undefined\<close>
  and \<^verbatim>\<open>regex.test\<close> throws), or the call is suspended at the \<^verbatim>\<open>await\<close> on the promise
  of the provider (\<open>Awaiting\<close>, with the way that promise settles).
  \<open>loadSecret_resume\<close> is the rest of the body, which runs when the promise of the
  provider has settled. There is no \<^verbatim>\<open>try\<close> around the \<^verbatim>\<open>await\<close>: a rejection of the
  provider's promise is the rejection of \<^verbatim>\<open>loadSecret\<close>.
\<close>

datatype Load = Ready "error + string option" | Awaiting "error + string option"

definition loadSecret_start :: "World \<Rightarrow> string \<Rightarrow> (Load \<times> World) option" where
  "loadSecret_start st key =
     (case initialize st of
        None \<Rightarrow> None
      | Some (Inl e, st1) \<Rightarrow> Some (Ready (Inl e), st1)
      | Some (Inr u, st1) \<Rightarrow>
          (case cache st1 key of
             Some v \<Rightarrow> Some (Ready (Inr (Some v)), st1)
           | None \<Rightarrow>
               (case providerMap (pluginName (plugin st1)) of
                  None \<Rightarrow> Some (Ready (Inl TypeError), st1)
                | Some provider \<Rightarrow>
                    (let providerSecret =
                           (if \<not> validateSecretName provider key
                            then normalizeSecretName provider key else key);
                         st2 = st1\<lparr>fetched := fetched st1 @ [(key, providerSecret)]\<rparr>
                     in Some (Awaiting (getSecret (plugin st1) providerSecret), st2)))))"

definition loadSecret_resume ::
  "World \<Rightarrow> string \<Rightarrow> error + string option \<Rightarrow> (error + string option) \<times> World" where
  "loadSecret_resume st key settledAs =
     (case settledAs of
        Inl e \<Rightarrow> (Inl e, st)
      | Inr None \<Rightarrow> (Inr None, st)
      | Inr (Some pluginValue) \<Rightarrow>
          (Inr (Some pluginValue), st\<lparr>cache := (cache st)(key \<mapsto> pluginValue)\<rparr>))"

text \<open>
  \<open>resumeLoad\<close>: a call of \<^verbatim>\<open>loadSecret\<close> settles. \<open>loadSecret\<close> is
  \<^verbatim>\<open>await secretsCache.loadSecret(key)\<close>: the call from its start to the settling of its
  promise, with nothing else run in between.
\<close>

definition resumeLoad :: "World \<Rightarrow> string \<Rightarrow> Load \<Rightarrow> (error + string option) \<times> World" where
  "resumeLoad st key l =
     (case l of
        Ready r \<Rightarrow> (r, st)
      | Awaiting settledAs \<Rightarrow> loadSecret_resume st key settledAs)"

definition loadSecret :: "World \<Rightarrow> string \<Rightarrow> string option outcome" where
  "loadSecret st key =
     (case loadSecret_start st key of
        None \<Rightarrow> None
      | Some (l, st1) \<Rightarrow> Some (resumeLoad st1 key l))"

text \<open>
  A call left in flight resumes: the \<open>i\<close>-th entry of \<open>inFlight\<close> leaves the list
  and the rest of its body runs.
\<close>

definition resumeInFlight :: "World \<Rightarrow> nat \<Rightarrow> World" where
  "resumeInFlight st i =
     (if i < length (inFlight st)
      then (let (key, settledAs) = inFlight st ! i;
                st1 = st\<lparr>inFlight := take i (inFlight st) @ drop (Suc i) (inFlight st)\<rparr>
            in snd (loadSecret_resume st1 key settledAs))
      else st)"

definition markPreloadExecuted :: "World \<Rightarrow> World" where
  "markPreloadExecuted st = st\<lparr>preloadExecuted := True\<rparr>"

text \<open>
  The \<^verbatim>\<open>get\<close> trap of the proxy \<^verbatim>\<open>secrets\<close>. A property key is a symbol or a
  string; for a symbol the trap returns \<^verbatim>\<open>undefined\<close>. In its last branch the trap
  starts \<^verbatim>\<open>loadSecret\<close> and returns without waiting: a call suspended at its
  \<^verbatim>\<open>await\<close> is left in flight, and the promise of the wrapper is the promise of that call
  with \<^verbatim>\<open>.then(val => val ?? "")\<close>.
\<close>

datatype PropertyKey = SymbolKey | StringKey string

definition secrets_get :: "World \<Rightarrow> PropertyKey \<Rightarrow> SecretValue option outcome" where
  "secrets_get st prop =
     (case prop of
        SymbolKey \<Rightarrow> Some (Inr None, st)
      | StringKey key \<Rightarrow>
          if startsWith key ''PUBLIC_''
          then (case getPublicSync st key of
                  None \<Rightarrow> None
                | Some (Inl e, st1) \<Rightarrow> Some (Inl e, st1)
                | Some (Inr found, st1) \<Rightarrow>
                    (let publicVal = (case found of Some v \<Rightarrow> v | None \<Rightarrow> '''')
                     in Some (Inr (Some \<lparr>secretName = key, syncValue = Some publicVal,
                                         asyncValue = Inr publicVal\<rparr>), st1)))
          else (case getSecretSync st key of
                  None \<Rightarrow> None
                | Some (Inl e, st1) \<Rightarrow> Some (Inl e, st1)
                | Some (Inr cached, st1) \<Rightarrow>
                    (case cached of
                       Some c \<Rightarrow>
                         Some (Inr (Some \<lparr>secretName = key, syncValue = Some c,
                                          asyncValue = Inr c\<rparr>), st1)
                     | None \<Rightarrow>
                         if preloadExecuted st1
                         then Some (Inr (Some \<lparr>secretName = key, syncValue = Some '''',
                                               asyncValue = Inr ''''\<rparr>), st1)
                         else (case loadSecret_start st1 key of
                                 None \<Rightarrow> None
                               | Some (l, st2) \<Rightarrow>
                                   Some (Inr (Some \<lparr>secretName = key, syncValue = None,
                                           asyncValue = thenP (fst (resumeLoad st2 key l))
                                             (\<lambda>val. Inr (case val of Some v \<Rightarrow> v
                                                                  | None \<Rightarrow> ''''))\<rparr>),
                                         (case l of
                                            Ready r \<Rightarrow> st2
                                          | Awaiting settledAs \<Rightarrow>
                                              st2\<lparr>inFlight := inFlight st2 @ [(key, settledAs)]\<rparr>))))))"

section \<open>Bulk preload (src/preload.ts)\<close>









section \<open>Variable expansion (src/config.ts)\<close>

text \<open>
  \<^verbatim>\<open>value.replace(/\$\{([^}]+)\}/g, callback)\<close>. \<open>matchRef s\<close> is a match of the
  expression at the start of \<open>s\<close>: the two units \<^verbatim>\<open>${\<close>, the longest run of units
  other than \<^verbatim>\<open>}\<close>, which must not be empty, and a \<^verbatim>\<open>}\<close>; it returns the name and
  the rest of the string. \<open>replaceRefs\<close> scans from the left, replaces each match by
  what the callback returns for its name and goes on after the match; the replacement
  is not scanned again.
\<close>

definition matchRef :: "string \<Rightarrow> (string \<times> string) option" where
  "matchRef s =
     (case s of
        c1 # c2 # r \<Rightarrow>
          if c1 = CHR ''$'' \<and> c2 = CHR ''{''
          then (let name = takeWhile (\<lambda>c. c \<noteq> CHR ''}'') r;
                    rest = dropWhile (\<lambda>c. c \<noteq> CHR ''}'') r
                in if name \<noteq> [] \<and> rest \<noteq> [] then Some (name, tl rest) else None)
          else None
      | _ \<Rightarrow> None)"

lemma matchRef_shorter: "matchRef s = Some (name, rest) \<Longrightarrow> length rest < length s"
proof -
  have "length (tl (dropWhile P r)) < Suc (Suc (length r))" for P and r :: string
    using length_dropWhile_le [of P r] by simp
  then show "matchRef s = Some (name, rest) \<Longrightarrow> length rest < length s"
    by (auto simp: matchRef_def Let_def split: list.splits if_splits)
qed

function replaceRefs :: "(string \<Rightarrow> string) \<Rightarrow> string \<Rightarrow> string" where
  "replaceRefs f [] = []"
| "replaceRefs f (c # cs) =
     (case matchRef (c # cs) of
        Some (name, rest) \<Rightarrow> f name @ replaceRefs f rest
      | None \<Rightarrow> c # replaceRefs f cs)"
  by pat_completeness auto
termination
  by (relation "measure (\<lambda>(f, s). length s)") (auto dest: matchRef_shorter)

text \<open>
  Two readings of the same scan: \<open>refNames s\<close> lists the names of the matches in
  \<open>s\<close>, and \<open>strayFree s\<close> says that no \<^verbatim>\<open>$\<close> of \<open>s\<close> is left outside a match.
\<close>

function refNames :: "string \<Rightarrow> string list" where
  "refNames [] = []"
| "refNames (c # cs) =
     (case matchRef (c # cs) of
        Some (name, rest) \<Rightarrow> name # refNames rest
      | None \<Rightarrow> refNames cs)"
  by pat_completeness auto
termination
  by (relation "measure length") (auto dest: matchRef_shorter)

function strayFree :: "string \<Rightarrow> bool" where
  "strayFree [] = True"
| "strayFree (c # cs) =
     (case matchRef (c # cs) of
        Some (name, rest) \<Rightarrow> strayFree rest
      | None \<Rightarrow> c \<noteq> CHR ''$'' \<and> strayFree cs)"
  by pat_completeness auto
termination
  by (relation "measure length") (auto dest: matchRef_shorter)

text \<open>
  The callback: \<^verbatim>\<open>vars[varName] !== undefined ? vars[varName] : ""\<close>. \<open>vars\<close> is the
  merged record, the list of its own entries in the order of \<^verbatim>\<open>Object.keys\<close>. The
  record is an object literal, so a name that is not an own key can still read a member
  of \<^verbatim>\<open>Object.prototype\<close>; \<open>inherited name\<close> is the string \<^verbatim>\<open>replace\<close> makes of
  that member, and \<open>None\<close> for every other name.
\<close>

definition lookupVar :: "(string \<Rightarrow> string option) \<Rightarrow> (string \<times> string) list \<Rightarrow> string \<Rightarrow> string" where
  "lookupVar inherited vars varName =
     (case map_of vars varName of
        Some v \<Rightarrow> v
      | None \<Rightarrow> (case inherited varName of Some p \<Rightarrow> p | None \<Rightarrow> ''''))"

text \<open>\<^verbatim>\<open>vars[key] = newValue\<close> for a key the record has: the entry keeps its place.\<close>

definition setVar :: "string \<Rightarrow> string \<Rightarrow> (string \<times> string) list \<Rightarrow> (string \<times> string) list" where
  "setVar key newValue vars = map (\<lambda>(k, v). if k = key then (k, newValue) else (k, v)) vars"

text \<open>
  The \<^verbatim>\<open>for\<close> loop over \<^verbatim>\<open>Object.keys(vars)\<close>: one pass, with the flag
  \<^verbatim>\<open>changed\<close>. A later key reads the values the pass has already written.
\<close>

fun expandPass ::
  "(string \<Rightarrow> string option) \<Rightarrow> string list \<Rightarrow> (string \<times> string) list \<Rightarrow> bool
    \<Rightarrow> (string \<times> string) list \<times> bool" where
  "expandPass inherited [] vars changed = (vars, changed)"
| "expandPass inherited (key # keys) vars changed =
     (case map_of vars key of
        None \<Rightarrow> expandPass inherited keys vars changed
      | Some originalValue \<Rightarrow>
          (let newValue = replaceRefs (lookupVar inherited vars) originalValue
           in if newValue \<noteq> originalValue
              then expandPass inherited keys (setVar key newValue vars) True
              else expandPass inherited keys vars changed))"

text \<open>
  \<^verbatim>\<open>expandVariables\<close>: the \<^verbatim>\<open>while (changed)\<close> loop. The loop need not end, so the
  result is an option: \<open>None\<close> when it runs forever.
\<close>

partial_function (option) expandVariables ::
  "(string \<Rightarrow> string option) \<Rightarrow> (string \<times> string) list \<Rightarrow> (string \<times> string) list option" where
  "expandVariables inherited vars =
     (case expandPass inherited (map fst vars) vars False of
        (vars', changed) \<Rightarrow>
          if changed then expandVariables inherited vars' else Some vars')"

section \<open>What a validation operator owes to both channels\<close>

text \<open>
  The contract of a validation operator \<open>op\<close> with the rule \<open>violates\<close>, on every
  wrapper: with a synchronous value the call throws exactly when the value violates the
  rule; without one the call does not throw; and the wrapper returned keeps the name and
  the synchronous value, passes a rejection of the asynchronous value on, rejects when
  the awaited value violates the rule and is fulfilled with the awaited value otherwise.
\<close>

definition enforces ::
  "('a SecretWrapper \<Rightarrow> error + 'a SecretWrapper) \<Rightarrow> ('a \<Rightarrow> bool) \<Rightarrow> bool" where
  "enforces op violates \<longleftrightarrow>
     (\<forall>w. (\<forall>v. syncValue w = Some v \<longrightarrow> (isl (op w) \<longleftrightarrow> violates v)) \<and>
          (syncValue w = None \<longrightarrow> \<not> isl (op w)) \<and>
          (\<forall>w'. op w = Inr w' \<longrightarrow>
             secretName w' = secretName w \<and> syncValue w' = syncValue w \<and>
             (\<forall>e. asyncValue w = Inl e \<longrightarrow> await w' = Inl e) \<and>
             (\<forall>v. asyncValue w = Inr v \<longrightarrow>
                (if violates v then isl (await w') else await w' = Inr v))))"

section \<open>What the provider has to say about a key\<close>

text \<open>
  \<open>providerKey\<close> is the name \<^verbatim>\<open>loadSecret\<close> sends to a provider for a key: the key
  itself when the provider's validator accepts it, its normalized form otherwise.
  \<open>loadOf st key\<close> is what a call of \<^verbatim>\<open>loadSecret\<close> for the key comes to in an
  initialized state. \<open>nothingToFetch st key\<close> says that a load of the key brings
  nothing new: the key is in the private cache, or the active provider's promise for it
  is fulfilled with \<^verbatim>\<open>undefined\<close>.
\<close>

definition providerKey :: "Provider \<Rightarrow> string \<Rightarrow> string" where
  "providerKey provider key =
     (if \<not> validateSecretName provider key then normalizeSecretName provider key else key)"



section \<open>Records whose references can be resolved\<close>

text \<open>
  \<open>wellFormedVars inherited rank vars\<close>: the keys of the record are distinct; in every
  value each \<^verbatim>\<open>$\<close> starts a reference \<^verbatim>\<open>${NAME}\<close>; the references between keys of the
  record have no cycle, which \<open>rank\<close> witnesses by decreasing along every reference;
  and the text an inherited member turns into has no \<^verbatim>\<open>$\<close>.
\<close>

definition wellFormedVars ::
  "(string \<Rightarrow> string option) \<Rightarrow> (string \<Rightarrow> nat) \<Rightarrow> (string \<times> string) list \<Rightarrow> bool" where
  "wellFormedVars inherited rank vars \<longleftrightarrow>
     distinct (map fst vars) \<and>
     (\<forall>(k, v) \<in> set vars. strayFree v \<and>
        (\<forall>n \<in> set (refNames v). n \<in> fst ` set vars \<longrightarrow> rank n < rank k)) \<and>
     (\<forall>n p. inherited n = Some p \<longrightarrow> CHR ''$'' \<notin> set p)"
section \<open>An example configuration\<close>

text \<open>
  A vault plugin that holds two secrets, under the names the vault accepts; a plugin
  whose requests always fail; and a process that finds one public and one private value
  in its files and has not yet touched the manager.
\<close>

definition vaultPlugin :: Plugin where
  "vaultPlugin =
     \<lparr>pluginName = ''Azure Key Vault'',
      getSecret = (\<lambda>k. if k = ''db-password'' then Inr (Some ''hunter2'')
                      else if k = ''feature-enabled'' then Inr (Some ''true'')
                      else Inr None)\<rparr>"

definition failingPlugin :: Plugin where
  "failingPlugin =
     \<lparr>pluginName = ''AWS Secrets Manager'',
      getSecret = (\<lambda>k. Inl (ProviderFailure ''connection refused''))\<rparr>"

definition demoWorld :: World where
  "demoWorld =
     \<lparr>cache = Map.empty, publicCache = Map.empty, plugin = vaultPlugin,
      initialized = False, preloadExecuted = False,
      configOutcome = ConfigReturns [(''PUBLIC_APP_NAME'', ''demo''), (''API_KEY'', ''abc-123'')],
      fetched = [], inFlight = []\<rparr>"

text \<open>The expression \<^verbatim>\<open>/^[0-9]+$/g\<close>: a match starts at position 0 only and takes the
  whole string.\<close>

definition digitsOnly :: RegExp where
  "digitsOnly =
     \<lparr>matchAt = (\<lambda>s i. if i = 0 \<and> s \<noteq> [] \<and> list_all isDigit s then Some (length s) else None),
      globalOrSticky = True, lastIndex = 0\<rparr>"

text \<open>
  A merged record with references two levels deep and one reference to a name that is
  nowhere (\<^verbatim>\<open>SSL\<close>), with a rank that decreases along its references.
\<close>

definition demoVars :: "(string \<times> string) list" where
  "demoVars =
     [(''FULL'', ''${URL}?ssl=${SSL}''),
      (''HOST'', ''localhost''),
      (''URL'', ''db://${HOST}:5432'')]"

definition demoRank :: "string \<Rightarrow> nat" where
  "demoRank k = (if k = ''FULL'' then 2 else if k = ''URL'' then 1 else 0)"


section \<open>Properties of the key normalizer\<close>

text \<open>Every step of the normalizer keeps a property that holds of all units.\<close>


lemma list_all_replaceRuns:
  "list_all Q s \<Longrightarrow> list_all Q rep \<Longrightarrow> list_all Q (replaceRuns P rep s)"
proof (induction P rep s rule: replaceRuns.induct)
  case (1 P rep)
  then show ?case by simp
next
  case (2 P rep c cs)
  have "list_all Q (dropWhile P cs)"
    using "2.prems"(1) by (auto simp: list_all_iff dest: set_dropWhileD)
  with 2 show ?case by auto
qed

lemma list_all_stripEnds: "list_all Q s \<Longrightarrow> list_all Q (stripEnds P s)"
  by (auto simp: stripEnds_def list_all_iff dest!: set_dropWhileD)

lemma last_dropWhile: "dropWhile P xs \<noteq> [] \<Longrightarrow> last (dropWhile P xs) = last xs"
  by (induction xs) auto

lemma stripEnds_last: "stripEnds P s \<noteq> [] \<Longrightarrow> \<not> P (last (stripEnds P s))"
  by (simp add: stripEnds_def last_rev hd_dropWhile)

lemma stripEnds_hd:
  assumes "stripEnds P s \<noteq> []"
  shows "\<not> P (hd (stripEnds P s))"
proof -
  let ?d = "dropWhile P s"
  from assms have ne: "dropWhile P (rev ?d) \<noteq> []" by (simp add: stripEnds_def)
  have dne: "?d \<noteq> []"
  proof
    assume "?d = []"
    with ne show False by simp
  qed
  have "hd (stripEnds P s) = last (dropWhile P (rev ?d))"
    using ne by (simp add: stripEnds_def hd_rev)
  also have "\<dots> = last (rev ?d)" using ne by (rule last_dropWhile)
  also have "\<dots> = hd ?d" using dne by (simp add: last_rev)
  finally show ?thesis using dne by (simp add: hd_dropWhile)
qed

text \<open>The shape the anchored validators ask for: a first and a last unit of one class,
  anything of a wider class in between.\<close>

lemma bracket_shape:
  assumes "s \<noteq> []" "list_all Q s" "\<not> D (hd s)" "\<not> D (last s)"
    and "\<And>c. Q c \<Longrightarrow> \<not> D c \<Longrightarrow> A c" and "\<And>c. Q c \<Longrightarrow> M c"
  shows "case s of [] \<Rightarrow> False | c # r \<Rightarrow> A c \<and> (r = [] \<or> (list_all M (butlast r) \<and> A (last r)))"
proof (cases s)
  case Nil
  with assms show ?thesis by simp
next
  case (Cons c r)
  have "A c" using assms Cons by simp
  moreover have "r \<noteq> [] \<Longrightarrow> list_all M (butlast r)"
    using assms(2,6) Cons by (auto simp: list_all_iff dest: in_set_butlastD)
  moreover have "r \<noteq> [] \<Longrightarrow> A (last r)"
  proof -
    assume "r \<noteq> []"
    then have "last s = last r" "last r \<in> set s" using Cons by auto
    then show ?thesis using assms by (auto simp: list_all_iff)
  qed
  ultimately show ?thesis using Cons by auto
qed

lemma alnum_lowdig: "isLower c \<or> isDigit c \<Longrightarrow> isAlnum c"
  by (auto simp: isAlnum_def)

lemma azure_norm_facts:
  "list_all (\<lambda>c. isLower c \<or> isDigit c \<or> c = CHR ''-'') (normalizeSecretName azure key)"
proof -
  have "list_all (\<lambda>c. isLower c \<or> isDigit c \<or> c = CHR ''-'') (filter (\<lambda>c. isLower c \<or> isDigit c \<or> c = CHR ''-'') xs)" for xs
    by (simp add: list_all_iff)
  then show ?thesis
    by (simp add: list_all_stripEnds list_all_replaceRuns)
qed

lemma azure_shape_valid:
  assumes "list_all (\<lambda>c. isLower c \<or> isDigit c \<or> c = CHR ''-'') s"
    and "s \<noteq> [] \<Longrightarrow> hd s \<noteq> CHR ''-'' \<and> last s \<noteq> CHR ''-''"
  shows "validateSecretName azure s \<longleftrightarrow> 1 \<le> length s \<and> length s \<le> 127"
proof (cases "s = []")
  case True
  then show ?thesis by simp
next
  case False
  have sh: "case s of [] \<Rightarrow> False
      | c # r \<Rightarrow> isAlnum c \<and> (r = [] \<or> (list_all azureChar (butlast r) \<and> isAlnum (last r)))"
    using False assms
    by (intro bracket_shape[where Q = "\<lambda>c. isLower c \<or> isDigit c \<or> c = CHR ''-''"
          and D = "\<lambda>c. c = CHR ''-''"])
       (auto simp: azureChar_def isAlnum_def)
  obtain c r where cr: "s = c # r" using False by (cases s) auto
  show ?thesis
  proof (cases "r = []")
    case True
    with sh cr show ?thesis by simp
  next
    case False
    then have "length (butlast r) = length r - 1" by simp
    with sh cr False show ?thesis by auto
  qed
qed

lemma azure_norm_valid:
  "validateSecretName azure (normalizeSecretName azure key) \<longleftrightarrow>
     1 \<le> length (normalizeSecretName azure key) \<and> length (normalizeSecretName azure key) \<le> 127"
proof (rule azure_shape_valid)
  show "list_all (\<lambda>c. isLower c \<or> isDigit c \<or> c = CHR ''-'') (normalizeSecretName azure key)"
    by (rule azure_norm_facts)
  assume "normalizeSecretName azure key \<noteq> []"
  then show "hd (normalizeSecretName azure key) \<noteq> CHR ''-'' \<and> last (normalizeSecretName azure key) \<noteq> CHR ''-''"
    using stripEnds_hd[of "\<lambda>c. c = CHR ''-''"] stripEnds_last[of "\<lambda>c. c = CHR ''-''"]
    by simp
qed

lemma bytehide_norm_valid:
  "validateSecretName bytehide (normalizeSecretName bytehide key) \<longleftrightarrow>
     1 \<le> length (normalizeSecretName bytehide key) \<and> length (normalizeSecretName bytehide key) \<le> 127"
  using azure_norm_valid[of key] by simp

lemma ends_shape_valid:
  assumes "list_all (\<lambda>c. isLower c \<or> isDigit c \<or> D c) s"
    and "s \<noteq> [] \<Longrightarrow> \<not> D (hd s) \<and> \<not> D (last s)"
    and "\<And>c. isLower c \<or> isDigit c \<or> D c \<Longrightarrow> M c"
    and "2 \<le> length s"
  shows "case s of [] \<Rightarrow> False
      | c # r \<Rightarrow> isAlnum c \<and> r \<noteq> [] \<and> list_all M (butlast r) \<and> isAlnum (last r)"
proof -
  have ne: "s \<noteq> []" using assms(4) by auto
  have sh: "case s of [] \<Rightarrow> False
      | c # r \<Rightarrow> isAlnum c \<and> (r = [] \<or> (list_all M (butlast r) \<and> isAlnum (last r)))"
    using ne assms(1,2,3)
    by (intro bracket_shape[where Q = "\<lambda>c. isLower c \<or> isDigit c \<or> D c" and D = D])
       (auto simp: isAlnum_def)
  obtain c r where cr: "s = c # r" using ne by (cases s) auto
  with assms(4) have "r \<noteq> []" by auto
  with sh cr show ?thesis by simp
qed

lemma ibm_shape_valid:
  assumes all: "list_all (\<lambda>c. isLower c \<or> isDigit c \<or> c \<in> set ''-._'') s"
    and ends: "s \<noteq> [] \<Longrightarrow> \<not> (hd s \<in> set ''-._'') \<and> \<not> (last s \<in> set ''-._'')"
  shows "validateSecretName ibm s \<longleftrightarrow> 2 \<le> length s \<and> length s \<le> 256"
proof
  assume v: "validateSecretName ibm s"
  then obtain c r where cr: "s = c # r" by (cases s) auto
  with v have "r \<noteq> []" "length (butlast r) \<le> 254" by auto
  then have "2 \<le> length (c # r) \<and> length (c # r) \<le> 256"
    by (cases r) (simp_all del: butlast.simps)
  with cr show "2 \<le> length s \<and> length s \<le> 256" by simp
next
  assume len: "2 \<le> length s \<and> length s \<le> 256"
  have sh: "case s of [] \<Rightarrow> False
    | c # r \<Rightarrow> isAlnum c \<and> r \<noteq> [] \<and> list_all ibmChar (butlast r) \<and> isAlnum (last r)"
    using all ends len
    by (intro ends_shape_valid[where D = "\<lambda>c. c \<in> set ''-._''"])
       (auto simp: ibmChar_def isAlnum_def)
  obtain c r where cr: "s = c # r" using len by (cases s) auto
  have "length s = Suc (length r)" using cr by simp
  with len have "length (butlast r) \<le> 254" by (simp del: One_nat_def) linarith
  with sh cr show "validateSecretName ibm s" by simp
qed

lemma ibm_norm_valid:
  "validateSecretName ibm (normalizeSecretName ibm key) \<longleftrightarrow>
     2 \<le> length (normalizeSecretName ibm key) \<and> length (normalizeSecretName ibm key) \<le> 256"
proof (rule ibm_shape_valid)
  have "list_all (\<lambda>c. isLower c \<or> isDigit c \<or> c \<in> set ''-._'')
          (filter (\<lambda>c. isLower c \<or> isDigit c \<or> c \<in> set ''_.-'') xs)" for xs
    by (auto simp: list_all_iff)
  then show "list_all (\<lambda>c. isLower c \<or> isDigit c \<or> c \<in> set ''-._'') (normalizeSecretName ibm key)"
    by (simp add: list_all_stripEnds)
  assume "normalizeSecretName ibm key \<noteq> []"
  then show "\<not> (hd (normalizeSecretName ibm key) \<in> set ''-._'') \<and>
      \<not> (last (normalizeSecretName ibm key) \<in> set ''-._'')"
    using stripEnds_hd[of "\<lambda>c. c \<in> set ''-._''"] stripEnds_last[of "\<lambda>c. c \<in> set ''-._''"]
    by simp
qed

lemma hashicorp_shape_valid:
  assumes all: "list_all (\<lambda>c. isLower c \<or> isDigit c \<or> c \<in> set ''-/'') s"
    and ends: "s \<noteq> [] \<Longrightarrow> \<not> (hd s \<in> set ''-/'') \<and> \<not> (last s \<in> set ''-/'')"
  shows "validateSecretName hashicorp s \<longleftrightarrow> 2 \<le> length s"
proof
  assume v: "validateSecretName hashicorp s"
  then obtain c r where cr: "s = c # r" by (cases s) auto
  with v have "r \<noteq> []" by auto
  then have "2 \<le> length (c # r)" by (cases r) auto
  with cr show "2 \<le> length s" by simp
next
  assume len: "2 \<le> length s"
  have sh: "case s of [] \<Rightarrow> False
    | c # r \<Rightarrow> isAlnum c \<and> r \<noteq> [] \<and> list_all hashicorpChar (butlast r) \<and> isAlnum (last r)"
    using all ends len
    by (intro ends_shape_valid[where D = "\<lambda>c. c \<in> set ''-/''"])
       (auto simp: hashicorpChar_def isAlnum_def)
  obtain c r where cr: "s = c # r" using len by (cases s) auto
  with sh cr show "validateSecretName hashicorp s" by simp
qed

lemma hashicorp_norm_valid:
  "validateSecretName hashicorp (normalizeSecretName hashicorp key) \<longleftrightarrow>
     2 \<le> length (normalizeSecretName hashicorp key)"
proof (rule hashicorp_shape_valid)
  have "list_all (\<lambda>c. isLower c \<or> isDigit c \<or> c \<in> set ''-/'')
          (filter (\<lambda>c. isLower c \<or> isDigit c \<or> c \<in> set ''-/'') xs)" for xs
    by (auto simp: list_all_iff)
  then show "list_all (\<lambda>c. isLower c \<or> isDigit c \<or> c \<in> set ''-/'') (normalizeSecretName hashicorp key)"
    by (simp add: list_all_stripEnds)
  assume "normalizeSecretName hashicorp key \<noteq> []"
  then show "\<not> (hd (normalizeSecretName hashicorp key) \<in> set ''-/'') \<and>
      \<not> (last (normalizeSecretName hashicorp key) \<in> set ''-/'')"
    using stripEnds_hd[of "\<lambda>c. c \<in> set ''-/''"] stripEnds_last[of "\<lambda>c. c \<in> set ''-/''"]
    by simp
qed

lemma aws_norm_valid:
  "validateSecretName aws (normalizeSecretName aws key) \<longleftrightarrow>
     1 \<le> length (normalizeSecretName aws key) \<and> length (normalizeSecretName aws key) \<le> 512"
proof -
  have u: "awsChar (CHR ''_'')" by (simp add: awsChar_def)
  have "list_all awsChar (normalizeSecretName aws key)"
    using u by (auto simp: list_all_iff)
  then show ?thesis by auto
qed

lemma gcp_norm_valid:
  "validateSecretName gcp (normalizeSecretName gcp key) \<longleftrightarrow> normalizeSecretName gcp key \<noteq> []"
proof -
  have "list_all gcpChar (normalizeSecretName gcp key)"
    by (auto simp: list_all_iff dest: in_set_takeD)
  moreover have "length (normalizeSecretName gcp key) \<le> 255" by simp
  ultimately show ?thesis
    by (cases "normalizeSecretName gcp key") (simp_all del: normalizeSecretName.simps)
qed

lemma cyberark_norm_valid:
  "validateSecretName cyberark (normalizeSecretName cyberark key) \<longleftrightarrow>
     normalizeSecretName cyberark key \<noteq> []"
proof -
  have "list_all isAlnum (normalizeSecretName cyberark key)"
    by (auto simp: list_all_iff dest: in_set_takeD)
  moreover have "length (normalizeSecretName cyberark key) \<le> 28" by simp
  ultimately show ?thesis
    by (cases "normalizeSecretName cyberark key") (simp_all del: normalizeSecretName.simps)
qed

lemma hashicorpChar_not_terminator: "hashicorpChar c \<Longrightarrow> \<not> isLineTerminator c"
  by (auto simp: hashicorpChar_def isLineTerminator_def isAlnum_def isDigit_def isUpper_def
      isLower_def digits_def upperAZ_def lowerAZ_def)

lemma akeyless_norm_valid:
  "validateSecretName akeyless (normalizeSecretName akeyless key) \<longleftrightarrow>
     normalizeSecretName akeyless key \<noteq> []"
  by (auto simp: list_all_iff hashicorpChar_not_terminator)

text \<open>
  C4 (as the claim states it): for every provider and every key the normalized name
  passes the provider's validator. It fails for the local provider on the key
  \<^verbatim>\<open>my.key\<close>, which normalizes to \<^verbatim>\<open>MY.KEY\<close>: the normalizer of \<open>env\<close> only trims
  and upper-cases, and the dot stays.
\<close>

theorem normalize_not_always_valid:
  "\<not> validateSecretName env (normalizeSecretName env ''my.key'')"
  by (simp add: toUpperCase_def trim_def isSpace_def lowerAZ_def upperAZ_def envChar_def
      isAlnum_def isUpper_def isLower_def isDigit_def digits_def)

text \<open>
  C4 (amended): normalizeSecretName always returns a string, and for the providers
  whose normalizer strips every unit the validator refuses, the result passes the
  validator exactly when its length is one the validator accepts: not empty for gcp,
  cyberark and akeyless, 1 to 512 units for aws, 1 to 127 for azure and bytehide, 2 to
  256 for ibm, at least 2 for hashicorp. No key is excluded: the statement holds for the
  empty key and for keys that lose units.
\<close>

theorem normalize_valid_iff_length:
  "(validateSecretName gcp (normalizeSecretName gcp key) \<longleftrightarrow>
      normalizeSecretName gcp key \<noteq> []) \<and>
   (validateSecretName cyberark (normalizeSecretName cyberark key) \<longleftrightarrow>
      normalizeSecretName cyberark key \<noteq> []) \<and>
   (validateSecretName akeyless (normalizeSecretName akeyless key) \<longleftrightarrow>
      normalizeSecretName akeyless key \<noteq> []) \<and>
   (validateSecretName aws (normalizeSecretName aws key) \<longleftrightarrow>
      1 \<le> length (normalizeSecretName aws key) \<and> length (normalizeSecretName aws key) \<le> 512) \<and>
   (validateSecretName azure (normalizeSecretName azure key) \<longleftrightarrow>
      1 \<le> length (normalizeSecretName azure key) \<and> length (normalizeSecretName azure key) \<le> 127) \<and>
   (validateSecretName bytehide (normalizeSecretName bytehide key) \<longleftrightarrow>
      1 \<le> length (normalizeSecretName bytehide key) \<and>
      length (normalizeSecretName bytehide key) \<le> 127) \<and>
   (validateSecretName ibm (normalizeSecretName ibm key) \<longleftrightarrow>
      2 \<le> length (normalizeSecretName ibm key) \<and> length (normalizeSecretName ibm key) \<le> 256) \<and>
   (validateSecretName hashicorp (normalizeSecretName hashicorp key) \<longleftrightarrow>
      2 \<le> length (normalizeSecretName hashicorp key))"
proof (intro conjI)
  show "validateSecretName gcp (normalizeSecretName gcp key) \<longleftrightarrow>
      normalizeSecretName gcp key \<noteq> []"
    by (rule gcp_norm_valid)
  show "validateSecretName cyberark (normalizeSecretName cyberark key) \<longleftrightarrow>
      normalizeSecretName cyberark key \<noteq> []"
    by (rule cyberark_norm_valid)
  show "validateSecretName akeyless (normalizeSecretName akeyless key) \<longleftrightarrow>
      normalizeSecretName akeyless key \<noteq> []"
    by (rule akeyless_norm_valid)
  show "validateSecretName aws (normalizeSecretName aws key) \<longleftrightarrow>
      1 \<le> length (normalizeSecretName aws key) \<and> length (normalizeSecretName aws key) \<le> 512"
    by (rule aws_norm_valid)
  show "validateSecretName azure (normalizeSecretName azure key) \<longleftrightarrow>
      1 \<le> length (normalizeSecretName azure key) \<and> length (normalizeSecretName azure key) \<le> 127"
    by (rule azure_norm_valid)
  show "validateSecretName bytehide (normalizeSecretName bytehide key) \<longleftrightarrow>
      1 \<le> length (normalizeSecretName bytehide key) \<and>
      length (normalizeSecretName bytehide key) \<le> 127"
    by (rule bytehide_norm_valid)
  show "validateSecretName ibm (normalizeSecretName ibm key) \<longleftrightarrow>
      2 \<le> length (normalizeSecretName ibm key) \<and> length (normalizeSecretName ibm key) \<le> 256"
    by (rule ibm_norm_valid)
  show "validateSecretName hashicorp (normalizeSecretName hashicorp key) \<longleftrightarrow>
      2 \<le> length (normalizeSecretName hashicorp key)"
    by (rule hashicorp_norm_valid)
qed

text \<open>The amended statement at the key \<^verbatim>\<open>" My_Secret Key "\<close> for azure, whose normalized
  name \<^verbatim>\<open>my-secret-key\<close> has 13 units, and at the key \<^verbatim>\<open>"_"\<close> for ibm, whose normalized
  name is empty.\<close>

theorem normalize_valid_iff_length_witness:
  "normalizeSecretName azure '' My_Secret Key '' = ''my-secret-key'' \<and>
   validateSecretName azure (normalizeSecretName azure '' My_Secret Key '') \<and>
   normalizeSecretName ibm ''_'' = '''' \<and>
   \<not> validateSecretName ibm (normalizeSecretName ibm ''_'')"
proof -
  have n: "normalizeSecretName azure '' My_Secret Key '' = ''my-secret-key''"
    by code_simp
  have m: "normalizeSecretName ibm ''_'' = ''''"
    by code_simp
  have len: "1 \<le> length (normalizeSecretName azure '' My_Secret Key '') \<and>
      length (normalizeSecretName azure '' My_Secret Key '') \<le> 127"
    unfolding n by simp
  have nolen: "\<not> (2 \<le> length (normalizeSecretName ibm ''_'') \<and>
      length (normalizeSecretName ibm ''_'') \<le> 256)"
    unfolding m by simp
  note t = normalize_valid_iff_length
  have a: "validateSecretName azure (normalizeSecretName azure '' My_Secret Key '')"
    using t [of "'' My_Secret Key ''"] len by blast
  have b: "\<not> validateSecretName ibm (normalizeSecretName ibm ''_'')"
    using t [of "''_''"] nolen by blast
  from n a m b show ?thesis by blast
qed


section \<open>Properties of the value wrappers\<close>

text \<open>Each of these operators meets the contract \<open>enforces\<close> with the rule its source
  checks twice, once on the synchronous value and once in the callback of \<^verbatim>\<open>then\<close>;
  \<^verbatim>\<open>regex\<close> does for an expression without the flags \<^verbatim>\<open>g\<close> and \<^verbatim>\<open>y\<close>.\<close>


lemma js_lt_irrefl: "\<not> js_lt a a"
  by (cases a) auto

lemma enforces_required: "enforces SecretValue_required (\<lambda>v. v = '''')"
  unfolding enforces_def SecretValue_required_def await_def thenP_def
  by (auto simp: Let_def split: option.splits sum.splits)

lemma enforces_notEmpty: "enforces SecretValue_notEmpty (\<lambda>v. length v = 0)"
  unfolding enforces_def SecretValue_notEmpty_def await_def thenP_def
  by (auto simp: Let_def split: option.splits sum.splits)

lemma enforces_lengthBetween:
  "enforces (SecretValue_lengthBetween lo hi) (\<lambda>v. js_lt (strlen v) lo \<or> js_gt (strlen v) hi)"
  unfolding enforces_def SecretValue_lengthBetween_def await_def thenP_def
  by (auto simp: Let_def split: option.splits sum.splits)

lemma enforces_regex:
  "\<not> globalOrSticky pattern \<Longrightarrow>
   enforces (\<lambda>w. fst (SecretValue_regex pattern msg w)) (\<lambda>v. matchAt pattern v 0 = None)"
  unfolding enforces_def SecretValue_regex_def RegExp_test_def await_def thenP_def
  by (auto simp: Let_def split: option.splits sum.splits)

lemma enforces_min: "enforces (NumberSecretValue_min n) (\<lambda>v. js_lt v n)"
  unfolding enforces_def NumberSecretValue_min_def await_def thenP_def
  by (auto simp: Let_def split: option.splits sum.splits)

lemma enforces_max: "enforces (NumberSecretValue_max n) (\<lambda>v. js_gt v n)"
  unfolding enforces_def NumberSecretValue_max_def await_def thenP_def
  by (auto simp: Let_def split: option.splits sum.splits)

lemma enforces_between:
  "enforces (NumberSecretValue_between lo hi) (\<lambda>v. js_lt v lo \<or> js_gt v hi)"
  unfolding enforces_def NumberSecretValue_between_def await_def thenP_def
  by (auto simp: Let_def split: option.splits sum.splits)

lemma enforces_positive: "enforces NumberSecretValue_positive (\<lambda>v. js_le v (Fin 0))"
  unfolding enforces_def NumberSecretValue_positive_def await_def thenP_def
  by (auto simp: Let_def split: option.splits sum.splits)

lemma enforces_negative: "enforces NumberSecretValue_negative (\<lambda>v. js_ge v (Fin 0))"
  unfolding enforces_def NumberSecretValue_negative_def await_def thenP_def
  by (auto simp: Let_def split: option.splits sum.splits)

lemma enforces_integer: "enforces NumberSecretValue_integer (\<lambda>v. \<not> isInteger v)"
  unfolding enforces_def NumberSecretValue_integer_def await_def thenP_def
  by (auto simp: Let_def split: option.splits sum.splits)

lemma enforces_true: "enforces BooleanSecretValue_true (\<lambda>v. v \<noteq> True)"
  unfolding enforces_def BooleanSecretValue_true_def await_def thenP_def
  by (auto simp: Let_def split: option.splits sum.splits)

lemma enforces_false: "enforces BooleanSecretValue_false (\<lambda>v. v \<noteq> False)"
  unfolding enforces_def BooleanSecretValue_false_def await_def thenP_def
  by (auto simp: Let_def split: option.splits sum.splits)

text \<open>
  C1: the claim says that a validation operator, \<^verbatim>\<open>required\<close> included, does not throw
  synchronously when the synchronous value is absent, and puts its rule on the
  asynchronous value. \<^verbatim>\<open>BooleanSecretValue.required()\<close> does the opposite. In the example
  the key \<^verbatim>\<open>FEATURE_ENABLED\<close> is not cached and the vault holds it as \<^verbatim>\<open>true\<close>: the proxy
  returns a wrapper without a synchronous value whose promise is fulfilled with
  \<^verbatim>\<open>true\<close>, \<^verbatim>\<open>boolean()\<close> turns it into a boolean wrapper of the same kind, and
  \<^verbatim>\<open>required()\<close> on that wrapper throws, which is the chain
  \<^verbatim>\<open>await secrets.FEATURE_ENABLED.boolean().required()\<close> of the method's own example.
  \<^verbatim>\<open>SecretValue.required()\<close> on the wrapper of the same key does not throw and returns a
  wrapper whose promise is fulfilled with the value.
\<close>

theorem boolean_required_throws_without_sync:
  "map_option fst (secrets_get demoWorld (StringKey ''FEATURE_ENABLED'')) =
     Some (Inr (Some \<lparr>secretName = ''FEATURE_ENABLED'', syncValue = None,
                       asyncValue = Inr ''true''\<rparr>)) \<and>
   SecretValue_boolean
     \<lparr>secretName = ''FEATURE_ENABLED'', syncValue = None, asyncValue = Inr ''true''\<rparr> =
     Inr \<lparr>secretName = ''FEATURE_ENABLED'', syncValue = None, asyncValue = Inr True\<rparr> \<and>
   BooleanSecretValue_required
     \<lparr>secretName = ''FEATURE_ENABLED'', syncValue = None, asyncValue = Inr True\<rparr> =
     Inl BooleanRequired \<and>
   SecretValue_required
     \<lparr>secretName = ''FEATURE_ENABLED'', syncValue = None, asyncValue = Inr ''true''\<rparr> =
     Inr \<lparr>secretName = ''FEATURE_ENABLED'', syncValue = None, asyncValue = Inr ''true''\<rparr>"
proof -
  have 1: "map_option fst (secrets_get demoWorld (StringKey ''FEATURE_ENABLED'')) =
     Some (Inr (Some \<lparr>secretName = ''FEATURE_ENABLED'', syncValue = None,
                       asyncValue = Inr ''true''\<rparr>))"
    by code_simp
  have 2: "SecretValue_boolean
     \<lparr>secretName = ''FEATURE_ENABLED'', syncValue = None, asyncValue = Inr ''true''\<rparr> =
     Inr \<lparr>secretName = ''FEATURE_ENABLED'', syncValue = None, asyncValue = Inr True\<rparr>"
    by code_simp
  have 3: "BooleanSecretValue_required
     \<lparr>secretName = ''FEATURE_ENABLED'', syncValue = None, asyncValue = Inr True\<rparr> =
     Inl BooleanRequired"
    by (simp add: BooleanSecretValue_required_def)
  have 4: "SecretValue_required
     \<lparr>secretName = ''FEATURE_ENABLED'', syncValue = None, asyncValue = Inr ''true''\<rparr> =
     Inr \<lparr>secretName = ''FEATURE_ENABLED'', syncValue = None, asyncValue = Inr ''true''\<rparr>"
    by (simp add: SecretValue_required_def thenP_def)
  from 1 2 3 4 show ?thesis by blast
qed

text \<open>
  A second place where the two channels part: \<^verbatim>\<open>regex\<close> tests one expression object
  twice. With \<^verbatim>\<open>/^[0-9]+$/g\<close> the synchronous test of \<^verbatim>\<open>8080\<close> succeeds and moves
  \<^verbatim>\<open>lastIndex\<close> to 4, so the test of the same awaited value starts there and fails:
  the call returns a wrapper whose promise rejects.
\<close>

lemma regex_global_flag_splits_channels:
  "fst (SecretValue_regex digitsOnly None
          \<lparr>secretName = ''PORT'', syncValue = Some ''8080'', asyncValue = Inr ''8080''\<rparr>) =
     Inr \<lparr>secretName = ''PORT'', syncValue = Some ''8080'', asyncValue = Inl RegexMismatch\<rparr>"
  by code_simp

text \<open>
  The other operators do what the claim says. The string operators required, notEmpty,
  lengthBetween and regex (for an expression without the flags \<^verbatim>\<open>g\<close> and \<^verbatim>\<open>y\<close>), the
  numeric operators min, max, between, positive, negative and integer, and the boolean
  operators true and false each throw synchronously exactly when a synchronous value is
  present and violates the rule, do not throw when it is absent, and attach the same
  rule to the asynchronous value. \<^verbatim>\<open>required\<close> on a number wrapper never throws
  synchronously and rejects the awaited value when it is NaN.
\<close>

lemma operators_enforce_on_both_channels:
  "enforces SecretValue_required (\<lambda>v. v = '''') \<and>
   enforces SecretValue_notEmpty (\<lambda>v. length v = 0) \<and>
   enforces (SecretValue_lengthBetween lo hi) (\<lambda>v. js_lt (strlen v) lo \<or> js_gt (strlen v) hi) \<and>
   (\<not> globalOrSticky pattern \<longrightarrow>
      enforces (\<lambda>w. fst (SecretValue_regex pattern msg w)) (\<lambda>v. matchAt pattern v 0 = None)) \<and>
   enforces (NumberSecretValue_min n) (\<lambda>v. js_lt v n) \<and>
   enforces (NumberSecretValue_max n) (\<lambda>v. js_gt v n) \<and>
   enforces (NumberSecretValue_between a b) (\<lambda>v. js_lt v a \<or> js_gt v b) \<and>
   enforces NumberSecretValue_positive (\<lambda>v. js_le v (Fin 0)) \<and>
   enforces NumberSecretValue_negative (\<lambda>v. js_ge v (Fin 0)) \<and>
   enforces NumberSecretValue_integer (\<lambda>v. \<not> isInteger v) \<and>
   enforces BooleanSecretValue_true (\<lambda>v. v \<noteq> True) \<and>
   enforces BooleanSecretValue_false (\<lambda>v. v \<noteq> False) \<and>
   (\<forall>w. \<exists>w'. NumberSecretValue_required w = Inr w' \<and>
          secretName w' = secretName w \<and> syncValue w' = syncValue w \<and>
          (\<forall>e. asyncValue w = Inl e \<longrightarrow> await w' = Inl e) \<and>
          (\<forall>v. asyncValue w = Inr v \<longrightarrow>
             (if isNaN v then await w' = Inl NumberRequired else await w' = Inr v)))"
proof -
  have nr: "\<forall>w. \<exists>w'. NumberSecretValue_required w = Inr w' \<and>
          secretName w' = secretName w \<and> syncValue w' = syncValue w \<and>
          (\<forall>e. asyncValue w = Inl e \<longrightarrow> await w' = Inl e) \<and>
          (\<forall>v. asyncValue w = Inr v \<longrightarrow>
             (if isNaN v then await w' = Inl NumberRequired else await w' = Inr v))"
    by (simp add: NumberSecretValue_required_def await_def thenP_def)
  have rx: "\<not> globalOrSticky pattern \<longrightarrow>
      enforces (\<lambda>w. fst (SecretValue_regex pattern msg w)) (\<lambda>v. matchAt pattern v 0 = None)"
    using enforces_regex by blast
  from nr rx show ?thesis
    using enforces_required enforces_notEmpty enforces_lengthBetween
      enforces_min enforces_max enforces_between enforces_positive enforces_negative
      enforces_integer enforces_true enforces_false
    by (intro conjI)
qed

text \<open>Lower-casing unit by unit: which strings lower-case to \<^verbatim>\<open>true\<close> and to \<^verbatim>\<open>false\<close>.\<close>


lemma lower_map_of:
  "map_of (zip upperAZ lowerAZ) c =
    (if c = CHR ''A'' then Some CHR ''a'' else if c = CHR ''B'' then Some CHR ''b''
     else if c = CHR ''C'' then Some CHR ''c'' else if c = CHR ''D'' then Some CHR ''d''
     else if c = CHR ''E'' then Some CHR ''e'' else if c = CHR ''F'' then Some CHR ''f''
     else if c = CHR ''G'' then Some CHR ''g'' else if c = CHR ''H'' then Some CHR ''h''
     else if c = CHR ''I'' then Some CHR ''i'' else if c = CHR ''J'' then Some CHR ''j''
     else if c = CHR ''K'' then Some CHR ''k'' else if c = CHR ''L'' then Some CHR ''l''
     else if c = CHR ''M'' then Some CHR ''m'' else if c = CHR ''N'' then Some CHR ''n''
     else if c = CHR ''O'' then Some CHR ''o'' else if c = CHR ''P'' then Some CHR ''p''
     else if c = CHR ''Q'' then Some CHR ''q'' else if c = CHR ''R'' then Some CHR ''r''
     else if c = CHR ''S'' then Some CHR ''s'' else if c = CHR ''T'' then Some CHR ''t''
     else if c = CHR ''U'' then Some CHR ''u'' else if c = CHR ''V'' then Some CHR ''v''
     else if c = CHR ''W'' then Some CHR ''w'' else if c = CHR ''X'' then Some CHR ''x''
     else if c = CHR ''Y'' then Some CHR ''y'' else if c = CHR ''Z'' then Some CHR ''z''
     else None)"
  by (simp add: upperAZ_def lowerAZ_def)

lemma lower_unit:
  "toLowerCase [c] = ''t'' \<longleftrightarrow> c = CHR ''t'' \<or> c = CHR ''T''"
  "toLowerCase [c] = ''r'' \<longleftrightarrow> c = CHR ''r'' \<or> c = CHR ''R''"
  "toLowerCase [c] = ''u'' \<longleftrightarrow> c = CHR ''u'' \<or> c = CHR ''U''"
  "toLowerCase [c] = ''e'' \<longleftrightarrow> c = CHR ''e'' \<or> c = CHR ''E''"
  "toLowerCase [c] = ''f'' \<longleftrightarrow> c = CHR ''f'' \<or> c = CHR ''F''"
  "toLowerCase [c] = ''a'' \<longleftrightarrow> c = CHR ''a'' \<or> c = CHR ''A''"
  "toLowerCase [c] = ''l'' \<longleftrightarrow> c = CHR ''l'' \<or> c = CHR ''L''"
  "toLowerCase [c] = ''s'' \<longleftrightarrow> c = CHR ''s'' \<or> c = CHR ''S''"
  by (simp_all add: toLowerCase_def lower_map_of)

lemma toLowerCase_eq_Cons:
  "toLowerCase s = l # ls \<longleftrightarrow>
     (\<exists>c cs. s = c # cs \<and> toLowerCase [c] = [l] \<and> toLowerCase cs = ls)"
  by (cases s) (auto simp: toLowerCase_def)

lemma toLowerCase_eq_Nil: "toLowerCase s = [] \<longleftrightarrow> s = []"
  by (simp add: toLowerCase_def)

lemma lower_true:
  "toLowerCase s = ''true'' \<longleftrightarrow>
     (\<exists>c1 c2 c3 c4. s = [c1, c2, c3, c4] \<and> c1 \<in> {CHR ''t'', CHR ''T''} \<and>
        c2 \<in> {CHR ''r'', CHR ''R''} \<and> c3 \<in> {CHR ''u'', CHR ''U''} \<and> c4 \<in> {CHR ''e'', CHR ''E''})"
  (is "?l \<longleftrightarrow> ?r")
proof
  assume ?l
  then obtain c1 s1 where 1: "s = c1 # s1" "toLowerCase [c1] = ''t''" "toLowerCase s1 = ''rue''"
    unfolding toLowerCase_eq_Cons [of s] by blast
  then obtain c2 s2 where 2: "s1 = c2 # s2" "toLowerCase [c2] = ''r''" "toLowerCase s2 = ''ue''"
    unfolding toLowerCase_eq_Cons [of s1] by blast
  then obtain c3 s3 where 3: "s2 = c3 # s3" "toLowerCase [c3] = ''u''" "toLowerCase s3 = ''e''"
    unfolding toLowerCase_eq_Cons [of s2] by blast
  then obtain c4 s4 where 4: "s3 = c4 # s4" "toLowerCase [c4] = ''e''" "toLowerCase s4 = []"
    unfolding toLowerCase_eq_Cons [of s3] by blast
  from 4 have "s4 = []" by (simp add: toLowerCase_eq_Nil)
  with 1 2 3 4 show ?r by (simp add: lower_unit)
next
  assume ?r
  then obtain c1 c2 c3 c4 where s: "s = [c1, c2, c3, c4]"
    and c: "toLowerCase [c1] = ''t''" "toLowerCase [c2] = ''r''" "toLowerCase [c3] = ''u''"
      "toLowerCase [c4] = ''e''"
    unfolding lower_unit by blast
  from c show ?l unfolding s toLowerCase_def by simp
qed

lemma lower_false:
  "toLowerCase s = ''false'' \<longleftrightarrow>
     (\<exists>c1 c2 c3 c4 c5. s = [c1, c2, c3, c4, c5] \<and> c1 \<in> {CHR ''f'', CHR ''F''} \<and>
        c2 \<in> {CHR ''a'', CHR ''A''} \<and> c3 \<in> {CHR ''l'', CHR ''L''} \<and>
        c4 \<in> {CHR ''s'', CHR ''S''} \<and> c5 \<in> {CHR ''e'', CHR ''E''})"
  (is "?l \<longleftrightarrow> ?r")
proof
  assume ?l
  then obtain c1 s1 where 1: "s = c1 # s1" "toLowerCase [c1] = ''f''" "toLowerCase s1 = ''alse''"
    unfolding toLowerCase_eq_Cons [of s] by blast
  then obtain c2 s2 where 2: "s1 = c2 # s2" "toLowerCase [c2] = ''a''" "toLowerCase s2 = ''lse''"
    unfolding toLowerCase_eq_Cons [of s1] by blast
  then obtain c3 s3 where 3: "s2 = c3 # s3" "toLowerCase [c3] = ''l''" "toLowerCase s3 = ''se''"
    unfolding toLowerCase_eq_Cons [of s2] by blast
  then obtain c4 s4 where 4: "s3 = c4 # s4" "toLowerCase [c4] = ''s''" "toLowerCase s4 = ''e''"
    unfolding toLowerCase_eq_Cons [of s3] by blast
  then obtain c5 s5 where 5: "s4 = c5 # s5" "toLowerCase [c5] = ''e''" "toLowerCase s5 = []"
    unfolding toLowerCase_eq_Cons [of s4] by blast
  from 5 have "s5 = []" by (simp add: toLowerCase_eq_Nil)
  with 1 2 3 4 5 show ?r by (simp add: lower_unit)
next
  assume ?r
  then obtain c1 c2 c3 c4 c5 where s: "s = [c1, c2, c3, c4, c5]"
    and c: "toLowerCase [c1] = ''f''" "toLowerCase [c2] = ''a''" "toLowerCase [c3] = ''l''"
      "toLowerCase [c4] = ''s''" "toLowerCase [c5] = ''e''"
    unfolding lower_unit by blast
  from c show ?l unfolding s toLowerCase_def by simp
qed

text \<open>
  C7: \<^verbatim>\<open>boolean()\<close> parses exactly the strings that spell \<^verbatim>\<open>true\<close> or \<^verbatim>\<open>false\<close> in any
  mix of upper and lower case. For every other string the call throws a parse error when
  the string is the synchronous value, and the promise of the wrapper it returns rejects
  with the parse error when the string is the awaited value; without a synchronous
  value the call itself does not throw.
\<close>

theorem boolean_parses_exactly_true_false:
  "(parseBoolean s = Some True \<longleftrightarrow>
      (\<exists>c1 c2 c3 c4. s = [c1, c2, c3, c4] \<and> c1 \<in> {CHR ''t'', CHR ''T''} \<and>
         c2 \<in> {CHR ''r'', CHR ''R''} \<and> c3 \<in> {CHR ''u'', CHR ''U''} \<and>
         c4 \<in> {CHR ''e'', CHR ''E''})) \<and>
   (parseBoolean s = Some False \<longleftrightarrow>
      (\<exists>c1 c2 c3 c4 c5. s = [c1, c2, c3, c4, c5] \<and> c1 \<in> {CHR ''f'', CHR ''F''} \<and>
         c2 \<in> {CHR ''a'', CHR ''A''} \<and> c3 \<in> {CHR ''l'', CHR ''L''} \<and>
         c4 \<in> {CHR ''s'', CHR ''S''} \<and> c5 \<in> {CHR ''e'', CHR ''E''})) \<and>
   (\<forall>w. syncValue w = Some s \<longrightarrow>
      (case parseBoolean s of
         None \<Rightarrow> SecretValue_boolean w = Inl (CannotConvertBoolean s)
       | Some b \<Rightarrow> (\<exists>w'. SecretValue_boolean w = Inr w' \<and> syncValue w' = Some b))) \<and>
   (\<forall>w. syncValue w = None \<longrightarrow>
      (\<exists>w'. SecretValue_boolean w = Inr w' \<and> syncValue w' = None)) \<and>
   (\<forall>w w'. SecretValue_boolean w = Inr w' \<and> asyncValue w = Inr s \<longrightarrow>
      (case parseBoolean s of
         None \<Rightarrow> await w' = Inl (CannotConvertBoolean s)
       | Some b \<Rightarrow> await w' = Inr b))"
proof (intro conjI)
  show "parseBoolean s = Some True \<longleftrightarrow>
      (\<exists>c1 c2 c3 c4. s = [c1, c2, c3, c4] \<and> c1 \<in> {CHR ''t'', CHR ''T''} \<and>
         c2 \<in> {CHR ''r'', CHR ''R''} \<and> c3 \<in> {CHR ''u'', CHR ''U''} \<and>
         c4 \<in> {CHR ''e'', CHR ''E''})"
    unfolding lower_true [symmetric] by (auto simp: parseBoolean_def Let_def)
  show "parseBoolean s = Some False \<longleftrightarrow>
      (\<exists>c1 c2 c3 c4 c5. s = [c1, c2, c3, c4, c5] \<and> c1 \<in> {CHR ''f'', CHR ''F''} \<and>
         c2 \<in> {CHR ''a'', CHR ''A''} \<and> c3 \<in> {CHR ''l'', CHR ''L''} \<and>
         c4 \<in> {CHR ''s'', CHR ''S''} \<and> c5 \<in> {CHR ''e'', CHR ''E''})"
    unfolding lower_false [symmetric] by (auto simp: parseBoolean_def Let_def)
  show "\<forall>w. syncValue w = Some s \<longrightarrow>
      (case parseBoolean s of
         None \<Rightarrow> SecretValue_boolean w = Inl (CannotConvertBoolean s)
       | Some b \<Rightarrow> (\<exists>w'. SecretValue_boolean w = Inr w' \<and> syncValue w' = Some b))"
    by (simp add: SecretValue_boolean_def Let_def split: option.splits)
  show "\<forall>w. syncValue w = None \<longrightarrow>
      (\<exists>w'. SecretValue_boolean w = Inr w' \<and> syncValue w' = None)"
    by (simp add: SecretValue_boolean_def Let_def)
  show "\<forall>w w'. SecretValue_boolean w = Inr w' \<and> asyncValue w = Inr s \<longrightarrow>
      (case parseBoolean s of
         None \<Rightarrow> await w' = Inl (CannotConvertBoolean s)
       | Some b \<Rightarrow> await w' = Inr b)"
    by (auto simp: SecretValue_boolean_def Let_def await_def thenP_def split: option.splits)
qed

text \<open>The statement at \<^verbatim>\<open>TrUe\<close>, which parses, and at \<^verbatim>\<open>yes\<close> and \<^verbatim>\<open>1\<close>, which do not.\<close>

theorem boolean_parses_exactly_true_false_witness:
  "parseBoolean ''TrUe'' = Some True \<and>
   SecretValue_boolean \<lparr>secretName = ''DEBUG'', syncValue = Some ''yes'', asyncValue = Inr ''yes''\<rparr>
     = Inl (CannotConvertBoolean ''yes'') \<and>
   (\<exists>w'. SecretValue_boolean \<lparr>secretName = ''DEBUG'', syncValue = None, asyncValue = Inr ''1''\<rparr>
            = Inr w' \<and> await w' = Inl (CannotConvertBoolean ''1''))"
proof -
  let ?y = "\<lparr>secretName = ''DEBUG'', syncValue = Some ''yes'', asyncValue = Inr ''yes''\<rparr>"
  let ?o = "\<lparr>secretName = ''DEBUG'', syncValue = None, asyncValue = Inr ''1''\<rparr>"
  have shape: "\<exists>c1 c2 c3 c4. ''TrUe'' = [c1, c2, c3, c4] \<and> c1 \<in> {CHR ''t'', CHR ''T''} \<and>
      c2 \<in> {CHR ''r'', CHR ''R''} \<and> c3 \<in> {CHR ''u'', CHR ''U''} \<and> c4 \<in> {CHR ''e'', CHR ''E''}"
    by simp
  have 1: "parseBoolean ''TrUe'' = Some True"
    using boolean_parses_exactly_true_false [of "''TrUe''"] shape by blast
  have ny: "parseBoolean ''yes'' = None" by code_simp
  have no: "parseBoolean ''1'' = None" by code_simp
  have "syncValue ?y = Some ''yes'' \<longrightarrow>
      (case parseBoolean ''yes'' of
         None \<Rightarrow> SecretValue_boolean ?y = Inl (CannotConvertBoolean ''yes'')
       | Some b \<Rightarrow> (\<exists>w'. SecretValue_boolean ?y = Inr w' \<and> syncValue w' = Some b))"
    using boolean_parses_exactly_true_false [of "''yes''"] by blast
  then have 2: "SecretValue_boolean ?y = Inl (CannotConvertBoolean ''yes'')"
    by (simp add: ny)
  have "\<exists>w'. SecretValue_boolean ?o = Inr w' \<and> syncValue w' = None"
    using boolean_parses_exactly_true_false [of "''1''"] by simp
  then obtain w' where w': "SecretValue_boolean ?o = Inr w'" by blast
  have "SecretValue_boolean ?o = Inr w' \<and> asyncValue ?o = Inr ''1'' \<longrightarrow>
      (case parseBoolean ''1'' of
         None \<Rightarrow> await w' = Inl (CannotConvertBoolean ''1'')
       | Some b \<Rightarrow> await w' = Inr b)"
    using boolean_parses_exactly_true_false [of "''1''"] by blast
  with w' have 3: "await w' = Inl (CannotConvertBoolean ''1'')"
    by (simp add: no)
  from 1 2 3 w' show ?thesis by blast
qed

text \<open>
  C8: on every number wrapper \<^verbatim>\<open>between(a, b)\<close> throws synchronously exactly when a
  synchronous value is present and is less than \<open>a\<close> or greater than \<open>b\<close>; it does
  not throw without one; the promise of the wrapper it returns rejects exactly when the
  awaited number is less than \<open>a\<close> or greater than \<open>b\<close>. A value equal to \<open>a\<close> or
  to \<open>b\<close>, for a range with \<open>a \<le> b\<close>, passes on both channels. The number in the
  wrapper that \<^verbatim>\<open>number()\<close> returns is \<^verbatim>\<open>Number(s)\<close> of the string \<open>s\<close> on each
  channel, whenever that is not NaN.
\<close>

theorem between_is_inclusive:
  "(\<forall>w v. syncValue w = Some v \<longrightarrow>
      (isl (NumberSecretValue_between a b w) \<longleftrightarrow> js_lt v a \<or> js_gt v b)) \<and>
   (\<forall>w. syncValue w = None \<longrightarrow> \<not> isl (NumberSecretValue_between a b w)) \<and>
   (\<forall>w w' v. NumberSecretValue_between a b w = Inr w' \<and> asyncValue w = Inr v \<longrightarrow>
      (isl (await w') \<longleftrightarrow> js_lt v a \<or> js_gt v b)) \<and>
   (\<forall>w v. js_le a b \<and> (v = a \<or> v = b) \<and> syncValue w = Some v \<and> asyncValue w = Inr v \<longrightarrow>
      (\<exists>w'. NumberSecretValue_between a b w = Inr w' \<and> syncValue w' = Some v \<and>
         await w' = Inr v)) \<and>
   (\<forall>w s. syncValue w = Some s \<and> Number s \<noteq> NaN \<longrightarrow>
      (\<exists>n. SecretValue_number Number w = Inr n \<and> syncValue n = Some (Number s))) \<and>
   (\<forall>w n s. SecretValue_number Number w = Inr n \<and> asyncValue w = Inr s \<and> Number s \<noteq> NaN \<longrightarrow>
      await n = Inr (Number s))"
proof (intro conjI allI impI)
  fix w :: NumberSecretValue and v
  assume "syncValue w = Some v"
  then show "isl (NumberSecretValue_between a b w) \<longleftrightarrow> js_lt v a \<or> js_gt v b"
    by (simp add: NumberSecretValue_between_def Let_def)
next
  fix w :: NumberSecretValue
  assume "syncValue w = None"
  then show "\<not> isl (NumberSecretValue_between a b w)"
    by (simp add: NumberSecretValue_between_def Let_def)
next
  fix w w' :: NumberSecretValue and v
  assume "NumberSecretValue_between a b w = Inr w' \<and> asyncValue w = Inr v"
  then show "isl (await w') \<longleftrightarrow> js_lt v a \<or> js_gt v b"
    by (auto simp: NumberSecretValue_between_def Let_def await_def thenP_def
        split: option.splits if_splits)
next
  fix w :: NumberSecretValue and v
  assume h: "js_le a b \<and> (v = a \<or> v = b) \<and> syncValue w = Some v \<and> asyncValue w = Inr v"
  then have "\<not> js_lt b a" by (simp add: js_le_def)
  with h have "\<not> (js_lt v a \<or> js_gt v b)"
    by (auto simp: js_gt_def js_lt_irrefl)
  with h show "\<exists>w'. NumberSecretValue_between a b w = Inr w' \<and> syncValue w' = Some v \<and>
         await w' = Inr v"
    by (simp add: NumberSecretValue_between_def Let_def await_def thenP_def)
next
  fix w :: SecretValue and s
  assume "syncValue w = Some s \<and> Number s \<noteq> NaN"
  then show "\<exists>n. SecretValue_number Number w = Inr n \<and> syncValue n = Some (Number s)"
    by (simp add: SecretValue_number_def Let_def isNaN_def)
next
  fix w :: SecretValue and n s
  assume "SecretValue_number Number w = Inr n \<and> asyncValue w = Inr s \<and> Number s \<noteq> NaN"
  then show "await n = Inr (Number s)"
    by (auto simp: SecretValue_number_def Let_def isNaN_def await_def thenP_def
        split: option.splits if_splits)
qed

text \<open>
  The statement for \<^verbatim>\<open>between(1, 3)\<close>: the boundary 3 passes on both channels, and 4
  throws.
\<close>

theorem between_is_inclusive_witness:
  "(\<exists>w'. NumberSecretValue_between (Fin 1) (Fin 3)
            \<lparr>secretName = ''PORT'', syncValue = Some (Fin 3), asyncValue = Inr (Fin 3)\<rparr> = Inr w' \<and>
          syncValue w' = Some (Fin 3) \<and> await w' = Inr (Fin 3)) \<and>
   isl (NumberSecretValue_between (Fin 1) (Fin 3)
         \<lparr>secretName = ''PORT'', syncValue = Some (Fin 4), asyncValue = Inr (Fin 4)\<rparr>)"
proof -
  let ?w3 = "\<lparr>secretName = ''PORT'', syncValue = Some (Fin 3), asyncValue = Inr (Fin 3)\<rparr>"
  let ?w4 = "\<lparr>secretName = ''PORT'', syncValue = Some (Fin 4), asyncValue = Inr (Fin 4)\<rparr>"
  note t = between_is_inclusive [of "Fin 1" "Fin 3" "\<lambda>s. NaN"]
  have le: "js_le (Fin 1) (Fin 3)" by (simp add: js_le_def)
  from t have "js_le (Fin 1) (Fin 3) \<and> (Fin 3 = Fin 1 \<or> Fin 3 = Fin 3) \<and>
      syncValue ?w3 = Some (Fin 3) \<and> asyncValue ?w3 = Inr (Fin 3) \<longrightarrow>
      (\<exists>w'. NumberSecretValue_between (Fin 1) (Fin 3) ?w3 = Inr w' \<and> syncValue w' = Some (Fin 3) \<and>
         await w' = Inr (Fin 3))"
    by blast
  with le have 1: "\<exists>w'. NumberSecretValue_between (Fin 1) (Fin 3) ?w3 = Inr w' \<and>
      syncValue w' = Some (Fin 3) \<and> await w' = Inr (Fin 3)"
    by simp
  from t have "syncValue ?w4 = Some (Fin 4) \<longrightarrow>
      (isl (NumberSecretValue_between (Fin 1) (Fin 3) ?w4) \<longleftrightarrow>
        js_lt (Fin 4) (Fin 1) \<or> js_gt (Fin 4) (Fin 3))"
    by blast
  then have 2: "isl (NumberSecretValue_between (Fin 1) (Fin 3) ?w4)"
    by (simp add: js_gt_def)
  from 1 2 show ?thesis by blast
qed
section \<open>Properties of the resolution cache and of the proxy\<close>

text \<open>
  Initialization changes the two caches and the flag only, and happens once.
\<close>

lemma fold_store_frame:
  "plugin (fold storeSecret xs s) = plugin s \<and>
   preloadExecuted (fold storeSecret xs s) = preloadExecuted s \<and>
   fetched (fold storeSecret xs s) = fetched s \<and>
   inFlight (fold storeSecret xs s) = inFlight s \<and>
   configOutcome (fold storeSecret xs s) = configOutcome s \<and>
   initialized (fold storeSecret xs s) = initialized s"
  by (induction xs arbitrary: s) (auto simp: storeSecret_def split: prod.splits)

lemma initialize_frame:
  assumes "initialize st = Some (r, st1)"
  shows "plugin st1 = plugin st" "preloadExecuted st1 = preloadExecuted st"
    "fetched st1 = fetched st" "inFlight st1 = inFlight st"
    "configOutcome st1 = configOutcome st" "initialized st1"
  using assms fold_store_frame [of _ "st\<lparr>initialized := True\<rparr>"]
  by (auto simp: initialize_def Let_def split: if_splits ConfigOutcome.splits)

lemma initialize_idem: "initialized st \<Longrightarrow> initialize st = Some (Inr (), st)"
  by (simp add: initialize_def)

text \<open>
  C2: for every key that starts with \<^verbatim>\<open>PUBLIC_\<close> and every state of the process
  (preload executed or not, key in the public cache or not) in which the lazy
  initialization of the read returns, because it was done before or because
  \<^verbatim>\<open>config\<close> returns now, the proxy returns a wrapper whose \<^verbatim>\<open>valueOf\<close>,
  \<^verbatim>\<open>toString\<close> and \<^verbatim>\<open>[Symbol.toPrimitive]\<close> return a value, none of them throws, and
  the value is the one \<^verbatim>\<open>await\<close> gives: the public value, or the empty string when
  there is none.
\<close>

theorem public_keys_sync_equals_await:
  assumes "startsWith key ''PUBLIC_''" and "initialize st = Some (Inr u, st1)"
  shows "\<exists>w v. secrets_get st (StringKey key) = Some (Inr (Some w), st1) \<and>
           valueOf w = Inr v \<and> SecretValue_toString w = Inr v \<and>
           SecretValue_toPrimitive w = Inr v \<and> await w = Inr v \<and>
           v = (case publicCache st1 key of Some x \<Rightarrow> x | None \<Rightarrow> '''')"
  using assms
  by (simp add: secrets_get_def getPublicSync_def valueOf_def SecretValue_toString_def
      SecretValue_toPrimitive_def await_def Let_def)

text \<open>
  The statement for the public key of the example, before any preload.
\<close>

theorem public_keys_sync_equals_await_witness:
  "startsWith ''PUBLIC_APP_NAME'' ''PUBLIC_'' \<and>
   (\<exists>st1. initialize demoWorld = Some (Inr (), st1) \<and>
      (\<exists>w. secrets_get demoWorld (StringKey ''PUBLIC_APP_NAME'') = Some (Inr (Some w), st1) \<and>
           valueOf w = Inr ''demo'' \<and> await w = Inr ''demo''))"
proof -
  have p: "startsWith ''PUBLIC_APP_NAME'' ''PUBLIC_''" by (simp add: startsWith_def)
  obtain st1 where i: "initialize demoWorld = Some (Inr (), st1)"
    by (simp add: initialize_def demoWorld_def Let_def)
  from public_keys_sync_equals_await [OF p i]
  obtain w v where w: "secrets_get demoWorld (StringKey ''PUBLIC_APP_NAME'') = Some (Inr (Some w), st1)"
    "valueOf w = Inr v" "await w = Inr v"
    and v: "v = (case publicCache st1 ''PUBLIC_APP_NAME'' of Some x \<Rightarrow> x | None \<Rightarrow> '''')"
    by blast
  have "map_option (\<lambda>(r, s). publicCache s ''PUBLIC_APP_NAME'') (initialize demoWorld) = Some (Some ''demo'')"
    by code_simp
  with i have "publicCache st1 ''PUBLIC_APP_NAME'' = Some ''demo''" by simp
  with v have "v = ''demo''" by simp
  with p i w show ?thesis by blast
qed

text \<open>
  When \<^verbatim>\<open>config\<close> throws inside the first read, the read throws the same error, and
  when \<^verbatim>\<open>config\<close> does not return, neither does the read.
\<close>

lemma secrets_get_config_failure:
  "initialize st = Some (Inl e, st1) \<Longrightarrow> secrets_get st (StringKey key) = Some (Inl e, st1)"
  "initialize st = None \<Longrightarrow> secrets_get st (StringKey key) = None"
  by (simp_all add: secrets_get_def getPublicSync_def getSecretSync_def)

text \<open>
  C3: once \<^verbatim>\<open>preloadExecuted\<close> is true, reading a key that does not start with
  \<^verbatim>\<open>PUBLIC_\<close> and that the private cache does not hold (the lookup
  \<^verbatim>\<open>getSecretSync\<close> of the proxy returns \<^verbatim>\<open>undefined\<close>) returns a wrapper whose
  synchronous value is the empty string and whose promise is fulfilled with the empty
  string; the read does not throw, makes no call to the provider and leaves no call in
  flight.
\<close>

theorem absent_after_preload_is_empty:
  assumes "preloadExecuted st" and "\<not> startsWith key ''PUBLIC_''"
    and "getSecretSync st key = Some (Inr None, st1)"
  shows "\<exists>w. secrets_get st (StringKey key) = Some (Inr (Some w), st1) \<and>
           syncValue w = Some '''' \<and> valueOf w = Inr '''' \<and> await w = Inr '''' \<and>
           fetched st1 = fetched st \<and> inFlight st1 = inFlight st"
proof -
  from assms(3) obtain u where i: "initialize st = Some (Inr u, st1)"
    by (auto simp: getSecretSync_def split: option.splits sum.splits prod.splits)
  note f = initialize_frame [OF i]
  from assms f show ?thesis
    by (simp add: secrets_get_def valueOf_def await_def)
qed

text \<open>
  The statement for a key the example does not have, after \<^verbatim>\<open>markPreloadExecuted()\<close>.
\<close>

theorem absent_after_preload_is_empty_witness:
  "preloadExecuted (markPreloadExecuted demoWorld) \<and>
   \<not> startsWith ''MISSING'' ''PUBLIC_'' \<and>
   (\<exists>st1. getSecretSync (markPreloadExecuted demoWorld) ''MISSING'' = Some (Inr None, st1) \<and>
      (\<exists>w. secrets_get (markPreloadExecuted demoWorld) (StringKey ''MISSING'') = Some (Inr (Some w), st1) \<and>
        valueOf w = Inr '''' \<and> await w = Inr '''') \<and>
      fetched st1 = [])"
proof -
  let ?st = "markPreloadExecuted demoWorld"
  have a: "preloadExecuted ?st" by (simp add: markPreloadExecuted_def)
  have b: "\<not> startsWith ''MISSING'' ''PUBLIC_''" by (simp add: startsWith_def)
  have "map_option fst (getSecretSync ?st ''MISSING'') = Some (Inr None)" by code_simp
  then obtain st1 where c: "getSecretSync ?st ''MISSING'' = Some (Inr None, st1)"
    by (cases "getSecretSync ?st ''MISSING''") auto
  have f: "fetched ?st = []" by (simp add: markPreloadExecuted_def demoWorld_def)
  from absent_after_preload_is_empty [OF a b c]
  obtain w where w: "secrets_get ?st (StringKey ''MISSING'') = Some (Inr (Some w), st1)"
    "valueOf w = Inr ''''" "await w = Inr ''''" "fetched st1 = fetched ?st"
    by blast
  with a b c f show ?thesis by auto
qed

text \<open>
  Before a preload, a read of a key that is not cached returns a wrapper without a
  synchronous value and leaves the call of \<^verbatim>\<open>loadSecret\<close> in flight: the cache gets
  the value when that call resumes, not when the read returns.
\<close>

lemma read_before_preload_leaves_load_in_flight:
  "map_option
     (\<lambda>(r, st1). (r, cache st1 ''DB_PASSWORD'', inFlight st1,
                   cache (resumeInFlight st1 0) ''DB_PASSWORD'', inFlight (resumeInFlight st1 0)))
     (secrets_get demoWorld (StringKey ''DB_PASSWORD'')) =
   Some (Inr (Some \<lparr>secretName = ''DB_PASSWORD'', syncValue = None, asyncValue = Inr ''hunter2''\<rparr>),
         None, [(''DB_PASSWORD'', Inr (Some ''hunter2''))], Some ''hunter2'', [])"
  by code_simp


lemma loadSecret_hit:
  "initialize st = Some (Inr u, st0) \<Longrightarrow> cache st0 key = Some v \<Longrightarrow>
   loadSecret st key = Some (Inr (Some v), st0)"
  by (simp add: loadSecret_def loadSecret_start_def resumeLoad_def)

lemma loadSecret_unknown_plugin:
  "initialize st = Some (Inr u, st0) \<Longrightarrow> cache st0 key = None \<Longrightarrow>
   providerMap (pluginName (plugin st)) = None \<Longrightarrow>
   loadSecret st key = Some (Inl TypeError, st0)"
  using initialize_frame(1) [of st "Inr u" st0]
  by (simp add: loadSecret_def loadSecret_start_def resumeLoad_def)

lemma loadSecret_miss:
  assumes "initialize st = Some (Inr u, st0)" and "cache st0 key = None"
    and "providerMap (pluginName (plugin st)) = Some provider"
  shows "loadSecret st key =
     Some (case getSecret (plugin st) (providerKey provider key) of
        Inl e \<Rightarrow> (Inl e, st0\<lparr>fetched := fetched st @ [(key, providerKey provider key)]\<rparr>)
      | Inr None \<Rightarrow> (Inr None, st0\<lparr>fetched := fetched st @ [(key, providerKey provider key)]\<rparr>)
      | Inr (Some v) \<Rightarrow> (Inr (Some v),
          st0\<lparr>fetched := fetched st @ [(key, providerKey provider key)],
             cache := (cache st0)(key \<mapsto> v)\<rparr>))"
  using assms initialize_frame(1,3) [OF assms(1)]
  by (simp add: loadSecret_def loadSecret_start_def resumeLoad_def loadSecret_resume_def
      providerKey_def Let_def split: sum.splits option.splits)

text \<open>
  C5 (as the claim states it): when the promise of the provider rejects, \<^verbatim>\<open>loadSecret\<close>
  resolves to \<^verbatim>\<open>undefined\<close>. With a plugin whose request fails, the promise of
  \<^verbatim>\<open>loadSecret\<close> rejects with the provider's error.
\<close>

theorem provider_rejection_propagates:
  "map_option fst (loadSecret
     \<lparr>cache = Map.empty, publicCache = Map.empty,
      plugin = \<lparr>pluginName = ''AWS Secrets Manager'',
                getSecret = (\<lambda>k. Inl (ProviderFailure ''connection refused''))\<rparr>,
      initialized = False, preloadExecuted = False, configOutcome = ConfigReturns [],
      fetched = [], inFlight = []\<rparr>
     ''API_KEY'') = Some (Inl (ProviderFailure ''connection refused''))"
  by (simp add: loadSecret_def loadSecret_start_def resumeLoad_def loadSecret_resume_def
      initialize_def providerMap_def Let_def)

text \<open>
  C5 (amended): for a key that is not cached and a plugin that has a validator,
  \<^verbatim>\<open>loadSecret\<close> passes a rejection of the provider's promise on: its own promise
  rejects with the same error, and the private cache is what initialization left. It
  resolves to \<^verbatim>\<open>undefined\<close> when the provider's promise is fulfilled with
  \<^verbatim>\<open>undefined\<close>, again with the cache as it was, and only then: when the provider's
  promise is fulfilled with a value, \<^verbatim>\<open>loadSecret\<close> resolves to that value and caches
  it.
\<close>

theorem loadSecret_passes_rejection_on:
  assumes "initialize st = Some (Inr u, st0)" and "cache st0 key = None"
    and "providerMap (pluginName (plugin st)) = Some provider"
  shows "(\<forall>e. getSecret (plugin st) (providerKey provider key) = Inl e \<longrightarrow>
            (\<exists>st'. loadSecret st key = Some (Inl e, st') \<and> cache st' = cache st0)) \<and>
         (getSecret (plugin st) (providerKey provider key) = Inr None \<longrightarrow>
            (\<exists>st'. loadSecret st key = Some (Inr None, st') \<and> cache st' = cache st0)) \<and>
         (\<forall>v. getSecret (plugin st) (providerKey provider key) = Inr (Some v) \<longrightarrow>
            (\<exists>st'. loadSecret st key = Some (Inr (Some v), st') \<and>
               cache st' = (cache st0)(key \<mapsto> v))) \<and>
         ((\<exists>st'. loadSecret st key = Some (Inr None, st')) \<longleftrightarrow>
            getSecret (plugin st) (providerKey provider key) = Inr None)"
  unfolding loadSecret_miss [OF assms]
  by (auto split: sum.splits option.splits)

text \<open>
  The statement for the failing plugin of the example.
\<close>

theorem loadSecret_passes_rejection_on_witness:
  "(\<exists>st0. initialize (setSecretsPlugin failingPlugin demoWorld) = Some (Inr (), st0) \<and>
      cache st0 ''DB_PASSWORD'' = None \<and>
      providerMap (pluginName (plugin (setSecretsPlugin failingPlugin demoWorld))) = Some aws \<and>
      (\<exists>st'. loadSecret (setSecretsPlugin failingPlugin demoWorld) ''DB_PASSWORD'' =
           Some (Inl (ProviderFailure ''connection refused''), st') \<and>
         cache st' = cache st0))"
proof -
  let ?st = "setSecretsPlugin failingPlugin demoWorld"
  obtain st0 where i: "initialize ?st = Some (Inr (), st0)"
    by (simp add: initialize_def demoWorld_def setSecretsPlugin_def Let_def)
  have "map_option (\<lambda>(r, s). cache s ''DB_PASSWORD'') (initialize ?st) = Some None"
    by code_simp
  with i have c: "cache st0 ''DB_PASSWORD'' = None" by simp
  have p: "providerMap (pluginName (plugin ?st)) = Some aws" by code_simp
  have g: "getSecret (plugin ?st) (providerKey aws ''DB_PASSWORD'') =
      Inl (ProviderFailure ''connection refused'')"
    by (simp add: setSecretsPlugin_def failingPlugin_def)
  from loadSecret_passes_rejection_on [OF i c p] g
  have "\<exists>st'. loadSecret ?st ''DB_PASSWORD'' = Some (Inl (ProviderFailure ''connection refused''), st') \<and>
      cache st' = cache st0"
    by blast
  with i c p show ?thesis by blast
qed

text \<open>
  C10: when \<^verbatim>\<open>loadSecret\<close> resolves a key that is not cached through the provider and
  the provider returns a value, the private cache afterwards is the cache before with
  that value under the key that was asked for, and nothing else: no entry is written
  under the name sent to the provider. One call to the provider is recorded. A lookup
  and a second \<^verbatim>\<open>loadSecret\<close> of the same key then return the value and leave the
  state, and with it the record of provider calls, as it is.
\<close>

theorem loaded_value_cached_under_requested_key:
  assumes "initialize st = Some (Inr u, st0)" and "cache st0 key = None"
    and "providerMap (pluginName (plugin st)) = Some provider"
    and "getSecret (plugin st) (providerKey provider key) = Inr (Some v)"
  shows "\<exists>st'. loadSecret st key = Some (Inr (Some v), st') \<and>
           cache st' = (cache st0)(key \<mapsto> v) \<and>
           fetched st' = fetched st @ [(key, providerKey provider key)] \<and>
           getSecretSync st' key = Some (Inr (Some v), st') \<and>
           loadSecret st' key = Some (Inr (Some v), st')"
proof -
  let ?st' = "st0\<lparr>fetched := fetched st @ [(key, providerKey provider key)],
             cache := (cache st0)(key \<mapsto> v)\<rparr>"
  have l: "loadSecret st key = Some (Inr (Some v), ?st')"
    using assms by (simp add: loadSecret_miss)
  have "initialized st0" using assms(1) by (rule initialize_frame)
  then have i: "initialized ?st'" by simp
  then have ii: "initialize ?st' = Some (Inr (), ?st')" by (rule initialize_idem)
  have g: "getSecretSync ?st' key = Some (Inr (Some v), ?st')"
    unfolding getSecretSync_def ii by simp
  have h: "loadSecret ?st' key = Some (Inr (Some v), ?st')"
    using loadSecret_hit [OF ii, of key v] by simp
  from l g h show ?thesis by auto
qed

text \<open>
  The statement for the example: the vault has the secret under \<^verbatim>\<open>db-password\<close>, the
  cache gets it under \<^verbatim>\<open>DB_PASSWORD\<close>.
\<close>

theorem loaded_value_cached_under_requested_key_witness:
  "providerKey azure ''DB_PASSWORD'' = ''db-password'' \<and>
   (\<exists>st'. loadSecret demoWorld ''DB_PASSWORD'' = Some (Inr (Some ''hunter2''), st') \<and>
      cache st' ''DB_PASSWORD'' = Some ''hunter2'' \<and> cache st' ''db-password'' = None \<and>
      fetched st' = [(''DB_PASSWORD'', ''db-password'')] \<and>
      loadSecret st' ''DB_PASSWORD'' = Some (Inr (Some ''hunter2''), st'))"
proof -
  have k: "providerKey azure ''DB_PASSWORD'' = ''db-password''" by code_simp
  obtain st0 where i: "initialize demoWorld = Some (Inr (), st0)"
    by (simp add: initialize_def demoWorld_def Let_def)
  have "map_option (\<lambda>(r, s). (cache s ''DB_PASSWORD'', cache s ''db-password'')) (initialize demoWorld)
      = Some (None, None)"
    by code_simp
  with i have c: "cache st0 ''DB_PASSWORD'' = None" and c': "cache st0 ''db-password'' = None"
    by simp_all
  have p: "providerMap (pluginName (plugin demoWorld)) = Some azure" by code_simp
  have g: "getSecret (plugin demoWorld) (providerKey azure ''DB_PASSWORD'') = Inr (Some ''hunter2'')"
    unfolding k by (simp add: demoWorld_def vaultPlugin_def)
  have f: "fetched demoWorld = []" by (simp add: demoWorld_def)
  from loaded_value_cached_under_requested_key [OF i c p g]
  obtain st' where s: "loadSecret demoWorld ''DB_PASSWORD'' = Some (Inr (Some ''hunter2''), st')"
    "cache st' = (cache st0)(''DB_PASSWORD'' \<mapsto> ''hunter2'')"
    "fetched st' = fetched demoWorld @ [(''DB_PASSWORD'', providerKey azure ''DB_PASSWORD'')]"
    "loadSecret st' ''DB_PASSWORD'' = Some (Inr (Some ''hunter2''), st')"
    by blast
  from s(2) c' have "cache st' ''DB_PASSWORD'' = Some ''hunter2''" "cache st' ''db-password'' = None"
    by simp_all
  moreover from s(3) k f have "fetched st' = [(''DB_PASSWORD'', ''db-password'')]" by simp
  ultimately show ?thesis using k s(1) s(4) by blast
qed























section \<open>Properties of the variable expansion\<close>

text \<open>A string without \<^verbatim>\<open>$\<close> has no match; the record \<^verbatim>\<open>A=${A}x\<close> doubles its tail of
  \<^verbatim>\<open>x\<close> in every pass.\<close>

lemma matchRef_dollar: "matchRef (c # cs) = Some x \<Longrightarrow> c = CHR ''$''"
  by (auto simp: matchRef_def split: list.splits if_splits)

lemma replaceRefs_no_dollar: "CHR ''$'' \<notin> set s \<Longrightarrow> replaceRefs f s = s"
proof (induction s)
  case Nil
  then show ?case by simp
next
  case (Cons c cs)
  then have "matchRef (c # cs) = None"
    using matchRef_dollar [of c cs] by (cases "matchRef (c # cs)") auto
  with Cons show ?case by simp
qed

lemma matchRef_A: "matchRef (''${A}'' @ r) = Some (''A'', r)"
  by (simp add: matchRef_def)

lemma replace_family:
  "replaceRefs f (''${A}'' @ replicate n CHR ''x'') = f ''A'' @ replicate n CHR ''x''"
proof -
  have "replaceRefs f (replicate n CHR ''x'') = replicate n CHR ''x''"
    by (rule replaceRefs_no_dollar) simp
  then show ?thesis
    using matchRef_A [of "replicate n CHR ''x''"] by simp
qed

lemma pass_family:
  "expandPass inh [''A''] [(''A'', ''${A}'' @ replicate (Suc n) CHR ''x'')] False =
     ([(''A'', ''${A}'' @ replicate (Suc (n + Suc n)) CHR ''x'')], True)"
proof -
  let ?v = "''${A}'' @ replicate (Suc n) CHR ''x''"
  have r: "replaceRefs (lookupVar inh [(''A'', ?v)]) ?v = ?v @ replicate (Suc n) CHR ''x''"
    unfolding replace_family by (simp add: lookupVar_def)
  have ne: "?v @ replicate (Suc n) CHR ''x'' \<noteq> ?v" by simp
  have e: "?v @ replicate (Suc n) CHR ''x'' = ''${A}'' @ replicate (Suc (n + Suc n)) CHR ''x''"
    by (simp add: replicate_add [symmetric] del: replicate.simps)
  show ?thesis
    apply (simp only: expandPass.simps map_of.simps fst_conv snd_conv fun_upd_same option.case Let_def r)
    apply (simp only: ne if_True if_not_P e [symmetric] setVar_def)
    apply simp
    done
qed

lemma family_never_returns:
  assumes "expandVariables inh vars = Some y"
  shows "\<forall>n. vars \<noteq> [(''A'', ''${A}'' @ replicate (Suc n) CHR ''x'')]"
proof (rule expandVariables.raw_induct
    [where P = "\<lambda>inh vars y. \<forall>n. vars \<noteq> [(''A'', ''${A}'' @ replicate (Suc n) CHR ''x'')]",
      OF _ assms])
  fix ev :: "(string \<Rightarrow> string option) \<Rightarrow> (string \<times> string) list \<Rightarrow> (string \<times> string) list option"
    and inh vars y
  assume IH: "\<And>inh vars y. ev inh vars = Some y \<Longrightarrow>
      \<forall>n. vars \<noteq> [(''A'', ''${A}'' @ replicate (Suc n) CHR ''x'')]"
    and body: "(case expandPass inh (map fst vars) vars False of
        (vars', changed) \<Rightarrow> if changed then ev inh vars' else Some vars') = Some y"
  show "\<forall>n. vars \<noteq> [(''A'', ''${A}'' @ replicate (Suc n) CHR ''x'')]"
  proof (intro allI notI)
    fix n
    assume v: "vars = [(''A'', ''${A}'' @ replicate (Suc n) CHR ''x'')]"
    have p: "expandPass inh (map fst vars) vars False =
        ([(''A'', ''${A}'' @ replicate (Suc (n + Suc n)) CHR ''x'')], True)"
      unfolding v using pass_family [of inh n] by simp
    from body have "ev inh [(''A'', ''${A}'' @ replicate (Suc (n + Suc n)) CHR ''x'')] = Some y"
      unfolding p by simp
    from IH [OF this] show False by blast
  qed
qed

text \<open>
  C9 (as the claim states it): for every merged record the expansion terminates. On the
  record with the one entry \<^verbatim>\<open>A=${A}x\<close> every pass changes the value, and the loop
  never ends: the model returns no result.
\<close>

theorem expansion_can_run_forever:
  "expandVariables (\<lambda>name. None) [(''A'', ''${A}x'')] = None"
proof (rule ccontr)
  assume "expandVariables (\<lambda>name. None) [(''A'', ''${A}x'')] \<noteq> None"
  then obtain r where r: "expandVariables (\<lambda>name. None) [(''A'', ''${A}x'')] = Some r" by auto
  from family_never_returns [OF r]
  have "[(''A'', ''${A}x'')] \<noteq> [(''A'', ''${A}'' @ replicate (Suc 0) CHR ''x'')]"
    by blast
  then show False by simp
qed

text \<open>What a pass keeps, and what a pass that reports no change has done.\<close>

lemma setVar_keys [simp]: "map fst (setVar k v vars) = map fst vars"
  by (induction vars) (auto simp: setVar_def)

lemma expandPass_keys: "map fst (fst (expandPass inh keys vars ch)) = map fst vars"
  by (induction keys arbitrary: vars ch) (auto simp: Let_def split: option.splits)

lemma expandPass_True: "snd (expandPass inh keys vars True)"
  by (induction keys arbitrary: vars) (auto simp: Let_def split: option.splits)

lemma expandPass_unchanged:
  "expandPass inh keys vars ch = (vars', False) \<Longrightarrow> vars' = vars \<and> \<not> ch"
proof (induction keys arbitrary: vars ch)
  case Nil
  then show ?case by simp
next
  case (Cons k keys)
  show ?case
  proof (cases "map_of vars k")
    case None
    with Cons.prems have "expandPass inh keys vars ch = (vars', False)" by simp
    from Cons.IH [OF this] show ?thesis .
  next
    case (Some v)
    let ?new = "replaceRefs (lookupVar inh vars) v"
    show ?thesis
    proof (cases "?new = v")
      case True
      with Some Cons.prems have "expandPass inh keys vars ch = (vars', False)"
        by (simp add: Let_def)
      from Cons.IH [OF this] show ?thesis .
    next
      case False
      with Some Cons.prems have "expandPass inh keys (setVar k ?new vars) True = (vars', False)"
        by (simp add: Let_def)
      with expandPass_True [of inh keys "setVar k ?new vars"] show ?thesis by simp
    qed
  qed
qed

lemma expandVariables_result:
  assumes "expandVariables inh vars = Some r"
  shows "map fst r = map fst vars \<and> expandPass inh (map fst r) r False = (r, False)"
proof (rule expandVariables.raw_induct
    [where P = "\<lambda>inh vars r. map fst r = map fst vars \<and>
        expandPass inh (map fst r) r False = (r, False)", OF _ assms])
  fix ev :: "(string \<Rightarrow> string option) \<Rightarrow> (string \<times> string) list \<Rightarrow> (string \<times> string) list option"
    and inh vars r
  assume IH: "\<And>inh vars r. ev inh vars = Some r \<Longrightarrow>
      map fst r = map fst vars \<and> expandPass inh (map fst r) r False = (r, False)"
    and body: "(case expandPass inh (map fst vars) vars False of
        (vars', changed) \<Rightarrow> if changed then ev inh vars' else Some vars') = Some r"
  obtain vars' changed where p: "expandPass inh (map fst vars) vars False = (vars', changed)"
    by (cases "expandPass inh (map fst vars) vars False") auto
  have k: "map fst vars' = map fst vars"
    using expandPass_keys [of inh "map fst vars" vars False] p by simp
  show "map fst r = map fst vars \<and> expandPass inh (map fst r) r False = (r, False)"
  proof (cases changed)
    case True
    with body p have "ev inh vars' = Some r" by simp
    from IH [OF this] have a: "map fst r = map fst vars'"
      and b: "expandPass inh (map fst r) r False = (r, False)"
      by blast+
    from a k have "map fst r = map fst vars" by simp
    with b show ?thesis by blast
  next
    case False
    with body p have r: "r = vars'" by simp
    from expandPass_unchanged [of inh "map fst vars" vars False vars'] p False
    have "vars' = vars" by simp
    with r p False show ?thesis by simp
  qed
qed

text \<open>The scan of a string that ends a match-free or fully matched prefix; what one
  substitution does to the references of a well-formed value.\<close>

lemma matchRef_append:
  "matchRef s = Some (name, rest) \<Longrightarrow> matchRef (s @ b) = Some (name, rest @ b)"
  by (auto simp: matchRef_def Let_def split: list.splits if_splits)

lemma matchRef_none_literal:
  "c \<noteq> CHR ''$'' \<Longrightarrow> matchRef (c # s) = None"
  by (auto simp: matchRef_def split: list.splits)

lemma scan_append:
  "strayFree a \<Longrightarrow>
     refNames (a @ b) = refNames a @ refNames b \<and>
     strayFree (a @ b) = strayFree b \<and>
     replaceRefs f (a @ b) = replaceRefs f a @ replaceRefs f b"
proof (induction a rule: strayFree.induct)
  case 1
  then show ?case by simp
next
  case (2 c cs)
  show ?case
  proof (cases "matchRef (c # cs)")
    case None
    with "2.prems" have c: "c \<noteq> CHR ''$''" and s: "strayFree cs" by simp_all
    from c have n: "matchRef (c # cs @ b) = None" by (rule matchRef_none_literal)
    from "2.IH"(1) [OF None s] None n c show ?thesis by simp
  next
    case (Some x)
    obtain name rest where x: "x = (name, rest)" by (cases x)
    with Some have m: "matchRef (c # cs) = Some (name, rest)" by simp
    from matchRef_append [OF m, of b] have m': "matchRef (c # cs @ b) = Some (name, rest @ b)"
      by simp
    from "2.prems" m have s: "strayFree rest" by simp
    from "2.IH"(2) [OF Some x [symmetric] s] m m' show ?thesis by simp
  qed
qed

lemma no_dollar_scan:
  "CHR ''$'' \<notin> set s \<Longrightarrow> refNames s = [] \<and> strayFree s"
proof (induction s)
  case Nil
  then show ?case by simp
next
  case (Cons c cs)
  then have "c \<noteq> CHR ''$''" by auto
  then have "matchRef (c # cs) = None" by (rule matchRef_none_literal)
  with Cons show ?case by auto
qed

lemma replaceRefs_scan:
  assumes "strayFree v" and "\<forall>n \<in> set (refNames v). strayFree (f n)"
  shows "strayFree (replaceRefs f v) \<and>
     set (refNames (replaceRefs f v)) = (\<Union>n \<in> set (refNames v). set (refNames (f n)))"
  using assms
proof (induction v rule: strayFree.induct)
  case 1
  then show ?case by simp
next
  case (2 c cs)
  show ?case
  proof (cases "matchRef (c # cs)")
    case None
    with "2.prems"(1) have c: "c \<noteq> CHR ''$''" and s: "strayFree cs" by simp_all
    from "2.prems"(2) None have a: "\<forall>n \<in> set (refNames cs). strayFree (f n)" by simp
    from "2.IH"(1) [OF None s a] have IH: "strayFree (replaceRefs f cs)"
      "set (refNames (replaceRefs f cs)) = (\<Union>n \<in> set (refNames cs). set (refNames (f n)))"
      by simp_all
    have m: "matchRef (c # replaceRefs f cs) = None" using c by (rule matchRef_none_literal)
    from None IH m c show ?thesis by simp
  next
    case (Some x)
    obtain name rest where x: "x = (name, rest)" by (cases x)
    with Some have m: "matchRef (c # cs) = Some (name, rest)" by simp
    from "2.prems"(1) m have s: "strayFree rest" by simp
    from "2.prems"(2) m have a: "\<forall>n \<in> set (refNames rest). strayFree (f n)" and fn: "strayFree (f name)"
      by simp_all
    from "2.IH"(2) [OF Some x [symmetric] s a] have IH: "strayFree (replaceRefs f rest)"
      "set (refNames (replaceRefs f rest)) = (\<Union>n \<in> set (refNames rest). set (refNames (f n)))"
      by simp_all
    from scan_append [OF fn, of "replaceRefs f rest" f] IH m show ?thesis by simp
  qed
qed

lemma replaceRefs_dollar_free:
  assumes "strayFree v" and "\<forall>n \<in> set (refNames v). CHR ''$'' \<notin> set (f n)"
  shows "CHR ''$'' \<notin> set (replaceRefs f v)"
  using assms
proof (induction v rule: strayFree.induct)
  case 1
  then show ?case by simp
next
  case (2 c cs)
  show ?case
  proof (cases "matchRef (c # cs)")
    case None
    with 2 show ?thesis by auto
  next
    case (Some x)
    obtain name rest where x: "x = (name, rest)" by (cases x)
    with Some have m: "matchRef (c # cs) = Some (name, rest)" by simp
    from "2.prems"(1) m have s: "strayFree rest" by simp
    from "2.prems"(2) m have a: "\<forall>n \<in> set (refNames rest). CHR ''$'' \<notin> set (f n)"
      and fn: "CHR ''$'' \<notin> set (f name)"
      by simp_all
    from "2.IH"(2) [OF Some x [symmetric] s a] fn m show ?thesis by simp
  qed
qed

lemma replaceRefs_cong:
  "\<forall>n \<in> set (refNames v). f n = g n \<Longrightarrow> replaceRefs f v = replaceRefs g v"
proof (induction v rule: refNames.induct)
  case 1
  then show ?case by simp
next
  case (2 c cs)
  show ?case
  proof (cases "matchRef (c # cs)")
    case None
    with 2 show ?thesis by simp
  next
    case (Some x)
    obtain name rest where x: "x = (name, rest)" by (cases x)
    with Some have m: "matchRef (c # cs) = Some (name, rest)" by simp
    from "2.prems" m have a: "\<forall>n \<in> set (refNames rest). f n = g n" and fn: "f name = g name"
      by simp_all
    from "2.IH"(2) [OF Some x [symmetric] a] fn m show ?thesis by simp
  qed
qed

text \<open>Substituting twice is substituting once with the substituted values.\<close>

lemma replaceRefs_compose:
  assumes "strayFree v" and "\<forall>n \<in> set (refNames v). strayFree (f n)"
  shows "replaceRefs g (replaceRefs f v) = replaceRefs (\<lambda>n. replaceRefs g (f n)) v"
  using assms
proof (induction v rule: strayFree.induct)
  case 1
  then show ?case by simp
next
  case (2 c cs)
  show ?case
  proof (cases "matchRef (c # cs)")
    case None
    with "2.prems"(1) have c: "c \<noteq> CHR ''$''" and s: "strayFree cs" by simp_all
    from "2.prems"(2) None have a: "\<forall>n \<in> set (refNames cs). strayFree (f n)" by simp
    have m: "matchRef (c # replaceRefs f cs) = None" using c by (rule matchRef_none_literal)
    from "2.IH"(1) [OF None s a] None m show ?thesis by simp
  next
    case (Some x)
    obtain name rest where x: "x = (name, rest)" by (cases x)
    with Some have m: "matchRef (c # cs) = Some (name, rest)" by simp
    from "2.prems"(1) m have s: "strayFree rest" by simp
    from "2.prems"(2) m have a: "\<forall>n \<in> set (refNames rest). strayFree (f n)" and fn: "strayFree (f name)"
      by simp_all
    from "2.IH"(2) [OF Some x [symmetric] s a] scan_append [OF fn, of "replaceRefs f rest" g] m
    show ?thesis by simp
  qed
qed

text \<open>One key of a pass on a well-formed record.\<close>

lemma setVar_set:
  "(k', v') \<in> set (setVar k new c) \<longleftrightarrow>
     (k' = k \<and> v' = new \<and> k \<in> fst ` set c) \<or> (k' \<noteq> k \<and> (k', v') \<in> set c)"
  by (induction c) (auto simp: setVar_def split: if_splits)

lemma setVar_map_of:
  "map_of (setVar k new c) k' =
     (if k' = k then map_option (\<lambda>_. new) (map_of c k) else map_of c k')"
  by (induction c) (auto simp: setVar_def)

lemma setVar_same:
  "distinct (map fst c) \<Longrightarrow> map_of c k = Some v \<Longrightarrow> setVar k v c = c"
proof -
  assume d: "distinct (map fst c)" and m: "map_of c k = Some v"
  have "(\<lambda>(k', v'). if k' = k then (k', v) else (k', v')) e = e" if "e \<in> set c" for e
  proof (cases e)
    case (Pair k' v')
    with that d m show ?thesis
      by (auto dest: map_of_SomeD eq_key_imp_eq_value)
  qed
  then show ?thesis unfolding setVar_def by (simp add: map_idI)
qed

lemma setVar_fst_set [simp]: "fst ` set (setVar k new c) = fst ` set c"
  using setVar_keys [of k new c] by (metis set_map)

lemma wf_entry:
  assumes "wellFormedVars inh rank c" and "(k, v) \<in> set c"
  shows "strayFree v" and "\<And>n u. n \<in> set (refNames v) \<Longrightarrow> (n, u) \<in> set c \<Longrightarrow> rank n < rank k"
proof -
  from assms have e: "strayFree v \<and>
      (\<forall>n \<in> set (refNames v). n \<in> fst ` set c \<longrightarrow> rank n < rank k)"
    unfolding wellFormedVars_def by blast
  then show "strayFree v" by simp
  fix n u assume "n \<in> set (refNames v)" "(n, u) \<in> set c"
  moreover from this have "n \<in> fst ` set c" by force
  ultimately show "rank n < rank k" using e by blast
qed

lemma wf_inherited:
  "wellFormedVars inh rank c \<Longrightarrow> inh n = Some p \<Longrightarrow> CHR ''$'' \<notin> set p"
  unfolding wellFormedVars_def by blast

lemma wf_distinct: "wellFormedVars inh rank c \<Longrightarrow> distinct (map fst c)"
  unfolding wellFormedVars_def by blast

lemma lookupVar_strayFree:
  assumes "wellFormedVars inh rank c"
  shows "strayFree (lookupVar inh c n)"
proof (cases "map_of c n")
  case None
  then show ?thesis
    using wf_inherited [OF assms] no_dollar_scan
    by (auto simp: lookupVar_def split: option.splits)
next
  case (Some u)
  then have "(n, u) \<in> set c" by (rule map_of_SomeD)
  from wf_entry(1) [OF assms this] Some show ?thesis by (simp add: lookupVar_def)
qed

lemma lookupVar_absent:
  assumes "wellFormedVars inh rank c" and "n \<notin> fst ` set c"
  shows "CHR ''$'' \<notin> set (lookupVar inh c n)"
proof -
  from assms(2) have "map_of c n = None" by (simp add: map_of_eq_None_iff)
  with wf_inherited [OF assms(1)] show ?thesis
    by (auto simp: lookupVar_def split: option.splits)
qed

lemma step_wellFormed:
  assumes wf: "wellFormedVars inh rank c" and m: "map_of c k = Some v"
  shows "wellFormedVars inh rank (setVar k (replaceRefs (lookupVar inh c) v) c)"
proof -
  let ?new = "replaceRefs (lookupVar inh c) v"
  let ?S = "setVar k ?new c"
  from m have kv: "(k, v) \<in> set c" by (rule map_of_SomeD)
  note sv = wf_entry(1) [OF wf kv] and rk = wf_entry(2) [OF wf kv]
  have sl: "\<forall>n \<in> set (refNames v). strayFree (lookupVar inh c n)"
    using lookupVar_strayFree [OF wf] by simp
  from replaceRefs_scan [OF sv sl]
  have snew: "strayFree ?new"
    and rnew: "set (refNames ?new) = (\<Union>n \<in> set (refNames v). set (refNames (lookupVar inh c n)))"
    by simp_all
  have ranks: "rank n' < rank k" if n': "n' \<in> set (refNames ?new)" "n' \<in> fst ` set c" for n'
  proof -
    from n'(1) rnew obtain n where n: "n \<in> set (refNames v)" "n' \<in> set (refNames (lookupVar inh c n))"
      by auto
    show ?thesis
    proof (cases "map_of c n")
      case None
      then have "n \<notin> fst ` set c" by (simp add: map_of_eq_None_iff)
      from lookupVar_absent [OF wf this] no_dollar_scan n(2) show ?thesis by auto
    next
      case (Some u)
      then have nu: "(n, u) \<in> set c" by (rule map_of_SomeD)
      from Some n(2) have "n' \<in> set (refNames u)" by (simp add: lookupVar_def)
      moreover from n'(2) obtain u' where "(n', u') \<in> set c" by auto
      ultimately have "rank n' < rank n" using wf_entry(2) [OF wf nu] by blast
      moreover from nu rk n(1) have "rank n < rank k" by blast
      ultimately show ?thesis by simp
    qed
  qed
  show ?thesis
    unfolding wellFormedVars_def
  proof (intro conjI)
    show "distinct (map fst ?S)" using wf_distinct [OF wf] by simp
    show "\<forall>(k', v') \<in> set ?S. strayFree v' \<and>
        (\<forall>n \<in> set (refNames v'). n \<in> fst ` set ?S \<longrightarrow> rank n < rank k')"
    proof (intro ballI, clarify)
      fix k' v' assume e: "(k', v') \<in> set ?S"
      show "strayFree v' \<and> (\<forall>n \<in> set (refNames v'). n \<in> fst ` set ?S \<longrightarrow> rank n < rank k')"
      proof (cases "k' = k")
        case True
        with e have "v' = ?new" by (simp add: setVar_set)
        with True snew ranks show ?thesis by simp
      next
        case False
        with e have old: "(k', v') \<in> set c" by (simp add: setVar_set)
        from wf_entry [OF wf old] show ?thesis by auto
      qed
    qed
    show "\<forall>n p. inh n = Some p \<longrightarrow> CHR ''$'' \<notin> set p"
      using wf_inherited [OF wf] by blast
  qed
qed

lemma step_dollar_free:
  assumes wf: "wellFormedVars inh rank c" and m: "map_of c k = Some v"
    and d: "\<forall>n u. (n, u) \<in> set c \<and> rank n < rank k \<longrightarrow> CHR ''$'' \<notin> set u"
  shows "CHR ''$'' \<notin> set (replaceRefs (lookupVar inh c) v)"
proof (rule replaceRefs_dollar_free)
  from m have kv: "(k, v) \<in> set c" by (rule map_of_SomeD)
  from wf_entry(1) [OF wf kv] show "strayFree v" .
  show "\<forall>n \<in> set (refNames v). CHR ''$'' \<notin> set (lookupVar inh c n)"
  proof
    fix n assume n: "n \<in> set (refNames v)"
    show "CHR ''$'' \<notin> set (lookupVar inh c n)"
    proof (cases "map_of c n")
      case None
      then have "n \<notin> fst ` set c" by (simp add: map_of_eq_None_iff)
      from lookupVar_absent [OF wf this] show ?thesis .
    next
      case (Some u)
      then have nu: "(n, u) \<in> set c" by (rule map_of_SomeD)
      with wf_entry(2) [OF wf kv] n have "rank n < rank k" by blast
      with d nu have "CHR ''$'' \<notin> set u" by blast
      with Some show ?thesis by (simp add: lookupVar_def)
    qed
  qed
qed

text \<open>A whole pass: every pass resolves the keys of the next rank, so the loop ends.\<close>

lemma pass_step:
  assumes "distinct (map fst c)" and "map_of c k = Some v"
  shows "expandPass inh (k # keys) c ch =
     expandPass inh keys (setVar k (replaceRefs (lookupVar inh c) v) c)
       (ch \<or> replaceRefs (lookupVar inh c) v \<noteq> v)"
  using assms setVar_same [OF assms] by (simp add: Let_def)

lemma pass_skip:
  "map_of c k = None \<Longrightarrow> expandPass inh (k # keys) c ch = expandPass inh keys c ch"
  by simp

lemma pass_progress:
  assumes "wellFormedVars inh rank c"
    and "\<forall>k v. (k, v) \<in> set c \<and> rank k < j \<longrightarrow> CHR ''$'' \<notin> set v"
    and "\<forall>k v. (k, v) \<in> set c \<and> k \<in> P \<and> rank k \<le> j \<longrightarrow> CHR ''$'' \<notin> set v"
  shows "wellFormedVars inh rank (fst (expandPass inh keys c ch)) \<and>
     (\<forall>k v. (k, v) \<in> set (fst (expandPass inh keys c ch)) \<and> rank k < j \<longrightarrow> CHR ''$'' \<notin> set v) \<and>
     (\<forall>k v. (k, v) \<in> set (fst (expandPass inh keys c ch)) \<and> k \<in> P \<union> set keys \<and> rank k \<le> j
        \<longrightarrow> CHR ''$'' \<notin> set v)"
  using assms
proof (induction keys arbitrary: c ch P)
  case Nil
  then show ?case by simp
next
  case (Cons k keys)
  note wf = Cons.prems(1) and D = Cons.prems(2) and Pp = Cons.prems(3)
  show ?case
  proof (cases "map_of c k")
    case None
    let ?c' = "fst (expandPass inh keys c ch)"
    from None have nk: "k \<notin> fst ` set c" by (simp add: map_of_eq_None_iff)
    have "fst ` set ?c' = fst ` set c"
      using expandPass_keys [of inh keys c ch] by (metis set_map)
    with nk have nk': "\<And>v. (k, v) \<notin> set ?c'" by force
    from Cons.IH [OF wf D Pp, of ch] nk' show ?thesis
      unfolding pass_skip [OF None] by auto
  next
    case (Some v)
    let ?new = "replaceRefs (lookupVar inh c) v"
    let ?S = "setVar k ?new c"
    have wfS: "wellFormedVars inh rank ?S" using wf Some by (rule step_wellFormed)
    have free: "CHR ''$'' \<notin> set ?new" if "rank k \<le> j"
    proof (rule step_dollar_free [OF wf Some])
      show "\<forall>n u. (n, u) \<in> set c \<and> rank n < rank k \<longrightarrow> CHR ''$'' \<notin> set u"
      proof (intro allI impI)
        fix n u assume a: "(n, u) \<in> set c \<and> rank n < rank k"
        with that have "rank n < j" by simp
        with a D show "CHR ''$'' \<notin> set u" by blast
      qed
    qed
    have DS: "\<forall>k' v'. (k', v') \<in> set ?S \<and> rank k' < j \<longrightarrow> CHR ''$'' \<notin> set v'"
    proof (intro allI impI)
      fix k' v' assume a: "(k', v') \<in> set ?S \<and> rank k' < j"
      show "CHR ''$'' \<notin> set v'"
      proof (cases "k' = k")
        case True
        with a have "v' = ?new" "rank k \<le> j" by (simp_all add: setVar_set)
        with free show ?thesis by simp
      next
        case False
        with a have "(k', v') \<in> set c" by (simp add: setVar_set)
        with a D show ?thesis by blast
      qed
    qed
    have PS: "\<forall>k' v'. (k', v') \<in> set ?S \<and> k' \<in> insert k P \<and> rank k' \<le> j \<longrightarrow> CHR ''$'' \<notin> set v'"
      using Pp free by (auto simp: setVar_set)
    from Cons.IH [OF wfS DS PS, of "ch \<or> ?new \<noteq> v"] show ?thesis
      unfolding pass_step [OF wf_distinct [OF wf] Some] by auto
  qed
qed

lemma pass_dollar_free:
  assumes "\<forall>k v. (k, v) \<in> set c \<longrightarrow> CHR ''$'' \<notin> set v"
  shows "expandPass inh keys c ch = (c, ch)"
  using assms
proof (induction keys arbitrary: ch)
  case Nil
  then show ?case by simp
next
  case (Cons k keys)
  show ?case
  proof (cases "map_of c k")
    case None
    with Cons show ?thesis by simp
  next
    case (Some v)
    then have "(k, v) \<in> set c" by (rule map_of_SomeD)
    with Cons.prems have "replaceRefs (lookupVar inh c) v = v"
      by (intro replaceRefs_no_dollar) blast
    with Some Cons show ?thesis by (simp add: Let_def)
  qed
qed

lemma expandVariables_step:
  "expandVariables inh c = expandVariables inh (fst (expandPass inh (map fst c) c False))"
proof (cases "snd (expandPass inh (map fst c) c False)")
  case True
  then show ?thesis
    by (subst expandVariables.simps) (simp add: case_prod_beta)
next
  case False
  then have "expandPass inh (map fst c) c False = (fst (expandPass inh (map fst c) c False), False)"
    by (simp add: prod_eq_iff)
  from expandPass_unchanged [OF this] show ?thesis by simp
qed

lemma expandVariables_terminates:
  assumes "wellFormedVars inh rank c"
    and "\<forall>k v. (k, v) \<in> set c \<and> rank k < j \<longrightarrow> CHR ''$'' \<notin> set v"
    and "\<forall>k v. (k, v) \<in> set c \<longrightarrow> rank k < J"
  shows "\<exists>r. expandVariables inh c = Some r \<and> (\<forall>k v. (k, v) \<in> set r \<longrightarrow> CHR ''$'' \<notin> set v)"
  using assms
proof (induction "J - j" arbitrary: c j)
  case 0
  then have all: "\<forall>k v. (k, v) \<in> set c \<longrightarrow> CHR ''$'' \<notin> set v"
    by (metis diff_is_0_eq less_le_trans)
  from pass_dollar_free [OF all] have "expandVariables inh c = Some c"
    by (subst expandVariables.simps) simp
  with all show ?case by blast
next
  case (Suc d)
  let ?c' = "fst (expandPass inh (map fst c) c False)"
  from pass_progress [OF Suc.prems(1) Suc.prems(2), of "{}" "map fst c" False]
  have wf': "wellFormedVars inh rank ?c'"
    and P': "\<forall>k v. (k, v) \<in> set ?c' \<and> k \<in> set (map fst c) \<and> rank k \<le> j \<longrightarrow> CHR ''$'' \<notin> set v"
    by auto
  have keys: "map fst ?c' = map fst c" by (rule expandPass_keys)
  have D': "\<forall>k v. (k, v) \<in> set ?c' \<and> rank k < Suc j \<longrightarrow> CHR ''$'' \<notin> set v"
  proof (intro allI impI)
    fix k v assume a: "(k, v) \<in> set ?c' \<and> rank k < Suc j"
    then have "k \<in> set (map fst ?c')" by force
    with keys have "k \<in> set (map fst c)" by simp
    moreover from a have "rank k \<le> j" by simp
    ultimately show "CHR ''$'' \<notin> set v" using a P' by blast
  qed
  have J': "\<forall>k v. (k, v) \<in> set ?c' \<longrightarrow> rank k < J"
  proof (intro allI impI)
    fix k v assume "(k, v) \<in> set ?c'"
    then have "k \<in> set (map fst ?c')" by force
    with keys obtain u where "(k, u) \<in> set c" by auto
    with Suc.prems(3) show "rank k < J" by blast
  qed
  from Suc.hyps(2) have d: "d = J - Suc j" by simp
  from Suc.hyps(1) [OF d wf' D' J'] show ?case
    by (subst expandVariables_step)
qed

text \<open>Reading a run backwards: the value a key ends with is its first value with every
  reference replaced by the value the referenced name ends with.\<close>

lemma pass_fixed:
  assumes "expandPass inh keys c ch = (c', False)"
  shows "\<forall>k \<in> set keys. \<forall>v. map_of c k = Some v \<longrightarrow> replaceRefs (lookupVar inh c) v = v"
  using assms
proof (induction keys arbitrary: c ch)
  case Nil
  then show ?case by simp
next
  case (Cons k keys)
  from expandPass_unchanged [OF Cons.prems] have same: "c' = c" "\<not> ch" by simp_all
  show ?case
  proof (cases "map_of c k")
    case None
    with Cons.prems have "expandPass inh keys c ch = (c', False)" by simp
    from Cons.IH [OF this] None show ?thesis by simp
  next
    case (Some v)
    let ?new = "replaceRefs (lookupVar inh c) v"
    show ?thesis
    proof (cases "?new = v")
      case True
      with Some Cons.prems have "expandPass inh keys c ch = (c', False)" by (simp add: Let_def)
      from Cons.IH [OF this] Some True show ?thesis by simp
    next
      case False
      with Some Cons.prems have "expandPass inh keys (setVar k ?new c) True = (c', False)"
        by (simp add: Let_def)
      with expandPass_True [of inh keys "setVar k ?new c"] show ?thesis by simp
    qed
  qed
qed

lemma back_step:
  assumes wf: "wellFormedVars inh rank c" and m: "map_of c k = Some v"
    and Q: "\<forall>n u. map_of (setVar k (replaceRefs (lookupVar inh c) v) c) n = Some u \<longrightarrow>
              replaceRefs E u = E n"
    and A: "\<forall>n. n \<notin> fst ` set c \<longrightarrow> E n = lookupVar inh c n"
  shows "\<forall>n u. map_of c n = Some u \<longrightarrow> replaceRefs E u = E n"
proof (intro allI impI)
  fix n u assume nu: "map_of c n = Some u"
  let ?new = "replaceRefs (lookupVar inh c) v"
  from m have kv: "(k, v) \<in> set c" by (rule map_of_SomeD)
  show "replaceRefs E u = E n"
  proof (cases "n = k")
    case False
    with nu have "map_of (setVar k ?new c) n = Some u" by (simp add: setVar_map_of)
    with Q show ?thesis by blast
  next
    case True
    with nu m have u: "u = v" by simp
    have "map_of (setVar k ?new c) k = Some ?new" using m by (simp add: setVar_map_of)
    with Q have e: "replaceRefs E ?new = E k" by blast
    have sl: "\<forall>x \<in> set (refNames v). strayFree (lookupVar inh c x)"
      using lookupVar_strayFree [OF wf] by simp
    have "replaceRefs E ?new = replaceRefs (\<lambda>x. replaceRefs E (lookupVar inh c x)) v"
      using wf_entry(1) [OF wf kv] sl by (rule replaceRefs_compose)
    also have "\<dots> = replaceRefs E v"
    proof (rule replaceRefs_cong, rule ballI)
      fix x assume x: "x \<in> set (refNames v)"
      show "replaceRefs E (lookupVar inh c x) = E x"
      proof (cases "map_of c x")
        case None
        then have nx: "x \<notin> fst ` set c" by (simp add: map_of_eq_None_iff)
        from lookupVar_absent [OF wf nx] have "replaceRefs E (lookupVar inh c x) = lookupVar inh c x"
          by (rule replaceRefs_no_dollar)
        with A nx show ?thesis by simp
      next
        case (Some w)
        then have xw: "(x, w) \<in> set c" by (rule map_of_SomeD)
        from wf_entry(2) [OF wf kv x xw] have "x \<noteq> k" by auto
        with Some have "map_of (setVar k ?new c) x = Some w" by (simp add: setVar_map_of)
        with Q have "replaceRefs E w = E x" by blast
        with Some show ?thesis by (simp add: lookupVar_def)
      qed
    qed
    finally show ?thesis using e u True by simp
  qed
qed

lemma lookupVar_setVar_absent:
  "n \<notin> fst ` set c \<Longrightarrow> lookupVar inh (setVar k new c) n = lookupVar inh c n"
proof -
  assume a: "n \<notin> fst ` set c"
  then have "map_of c n = None" by (simp add: map_of_eq_None_iff)
  moreover from a have "map_of (setVar k new c) n = None"
    by (simp add: map_of_eq_None_iff)
  ultimately show ?thesis by (simp add: lookupVar_def)
qed

lemma back_pass:
  assumes "wellFormedVars inh rank c"
    and "\<forall>n u. map_of (fst (expandPass inh keys c ch)) n = Some u \<longrightarrow> replaceRefs E u = E n"
    and "\<forall>n. n \<notin> fst ` set c \<longrightarrow> E n = lookupVar inh c n"
  shows "\<forall>n u. map_of c n = Some u \<longrightarrow> replaceRefs E u = E n"
  using assms
proof (induction keys arbitrary: c ch)
  case Nil
  then show ?case by simp
next
  case (Cons k keys)
  show ?case
  proof (cases "map_of c k")
    case None
    from Cons.prems(2) have "\<forall>n u. map_of (fst (expandPass inh keys c ch)) n = Some u \<longrightarrow>
        replaceRefs E u = E n"
      unfolding pass_skip [OF None] .
    from Cons.IH [OF Cons.prems(1) this Cons.prems(3)] show ?thesis .
  next
    case (Some v)
    let ?new = "replaceRefs (lookupVar inh c) v"
    let ?S = "setVar k ?new c"
    have wfS: "wellFormedVars inh rank ?S" using Cons.prems(1) Some by (rule step_wellFormed)
    from Cons.prems(2)
    have fin: "\<forall>n u. map_of (fst (expandPass inh keys ?S (ch \<or> ?new \<noteq> v))) n = Some u \<longrightarrow>
        replaceRefs E u = E n"
      unfolding pass_step [OF wf_distinct [OF Cons.prems(1)] Some] .
    have A: "\<forall>n. n \<notin> fst ` set ?S \<longrightarrow> E n = lookupVar inh ?S n"
      using Cons.prems(3) by (simp add: lookupVar_setVar_absent)
    from Cons.IH [OF wfS fin A]
    have "\<forall>n u. map_of ?S n = Some u \<longrightarrow> replaceRefs E u = E n" .
    from back_step [OF Cons.prems(1) Some this Cons.prems(3)] show ?thesis .
  qed
qed

lemma expandVariables_values:
  assumes "expandVariables inh vars = Some r"
  shows "wellFormedVars inh rank vars \<longrightarrow> map fst r = map fst vars \<and>
     (\<forall>k v. map_of vars k = Some v \<longrightarrow> map_of r k = Some (replaceRefs (lookupVar inh r) v))"
proof (rule expandVariables.raw_induct
    [where P = "\<lambda>inh vars r. wellFormedVars inh rank vars \<longrightarrow> map fst r = map fst vars \<and>
        (\<forall>k v. map_of vars k = Some v \<longrightarrow> map_of r k = Some (replaceRefs (lookupVar inh r) v))",
      OF _ assms])
  fix ev :: "(string \<Rightarrow> string option) \<Rightarrow> (string \<times> string) list \<Rightarrow> (string \<times> string) list option"
    and inh c r
  assume IH: "\<And>inh c r. ev inh c = Some r \<Longrightarrow>
      wellFormedVars inh rank c \<longrightarrow> map fst r = map fst c \<and>
        (\<forall>k v. map_of c k = Some v \<longrightarrow> map_of r k = Some (replaceRefs (lookupVar inh r) v))"
    and body: "(case expandPass inh (map fst c) c False of
        (vars', changed) \<Rightarrow> if changed then ev inh vars' else Some vars') = Some r"
  show "wellFormedVars inh rank c \<longrightarrow> map fst r = map fst c \<and>
        (\<forall>k v. map_of c k = Some v \<longrightarrow> map_of r k = Some (replaceRefs (lookupVar inh r) v))"
  proof
    assume wf: "wellFormedVars inh rank c"
    let ?c' = "fst (expandPass inh (map fst c) c False)"
    let ?E = "lookupVar inh r"
    have keys': "map fst ?c' = map fst c" by (rule expandPass_keys)
    show "map fst r = map fst c \<and>
        (\<forall>k v. map_of c k = Some v \<longrightarrow> map_of r k = Some (replaceRefs ?E v))"
    proof (cases "snd (expandPass inh (map fst c) c False)")
      case False
      then have p: "expandPass inh (map fst c) c False = (?c', False)" by (simp add: prod_eq_iff)
      from expandPass_unchanged [OF p] have cc: "?c' = c" by simp
      from body p cc have r: "r = c" by simp
      have "\<forall>k v. map_of c k = Some v \<longrightarrow> replaceRefs (lookupVar inh c) v = v"
      proof (intro allI impI)
        fix k v assume m: "map_of c k = Some v"
        then have "k \<in> set (map fst c)" by (force dest: map_of_SomeD)
        with pass_fixed [OF p] m show "replaceRefs (lookupVar inh c) v = v" by blast
      qed
      with r show ?thesis by simp
    next
      case True
      with body have "ev inh ?c' = Some r" by (simp add: case_prod_beta)
      then have run: "ev inh ?c' = Some r" .
      have d0: "\<forall>k v. (k, v) \<in> set c \<and> rank k < 0 \<longrightarrow> CHR ''$'' \<notin> set v" by simp
      have p0: "\<forall>k v. (k, v) \<in> set c \<and> k \<in> {} \<and> rank k \<le> 0 \<longrightarrow> CHR ''$'' \<notin> set v" by simp
      from pass_progress [OF wf d0 p0, of "map fst c" False]
      have wf': "wellFormedVars inh rank ?c'" by (rule conjunct1)
      from IH [OF run] wf'
      have kr: "map fst r = map fst ?c'"
        and vals: "\<forall>k v. map_of ?c' k = Some v \<longrightarrow> map_of r k = Some (replaceRefs ?E v)"
        by blast+
      have Q: "\<forall>n u. map_of ?c' n = Some u \<longrightarrow> replaceRefs ?E u = ?E n"
        using vals by (simp add: lookupVar_def)
      have A: "\<forall>n. n \<notin> fst ` set c \<longrightarrow> ?E n = lookupVar inh c n"
      proof (intro allI impI)
        fix n assume n: "n \<notin> fst ` set c"
        then have "map_of c n = None" by (simp add: map_of_eq_None_iff)
        moreover have "fst ` set r = fst ` set c" using kr keys' by (metis set_map)
        with n have "map_of r n = None" by (simp add: map_of_eq_None_iff)
        ultimately show "?E n = lookupVar inh c n" by (simp add: lookupVar_def)
      qed
      from back_pass [OF wf Q A] have B: "\<forall>n u. map_of c n = Some u \<longrightarrow> replaceRefs ?E u = ?E n" .
      have "map_of r k = Some (replaceRefs ?E v)" if m: "map_of c k = Some v" for k v
      proof -
        from m have "k \<in> fst ` set c" by (force dest: map_of_SomeD)
        moreover have "fst ` set r = fst ` set c" using kr keys' by (metis set_map)
        ultimately obtain w where w: "map_of r k = Some w"
          by (cases "map_of r k") (auto simp: map_of_eq_None_iff)
        then have "?E k = w" by (simp add: lookupVar_def)
        with B m w show ?thesis by simp
      qed
      with kr keys' show ?thesis by simp
    qed
  qed
qed

text \<open>
  C9 (amended): the expansion repeats whole passes until a pass changes no value and
  need not terminate. Whenever it terminates, the result has the keys of the record in
  their order and is a fixpoint: a further pass changes nothing. It does terminate on
  every well-formed record (distinct keys, every \<^verbatim>\<open>$\<close> of a value starting a reference
  \<^verbatim>\<open>${NAME}\<close>, no cycle among the references, inherited text free of \<^verbatim>\<open>$\<close>); then no
  value of the result contains a \<^verbatim>\<open>$\<close> or a reference, and the value of each key is its
  original value with every reference \<^verbatim>\<open>${NAME}\<close> replaced by the final value of
  \<open>NAME\<close>, by the inherited text when \<open>NAME\<close> is not a key but a member of
  \<^verbatim>\<open>Object.prototype\<close>, and by the empty string otherwise.
\<close>

theorem expandVariables_resolves_references:
  "(\<forall>r. expandVariables inherited vars = Some r \<longrightarrow>
      map fst r = map fst vars \<and> expandPass inherited (map fst r) r False = (r, False)) \<and>
   (wellFormedVars inherited rank vars \<longrightarrow>
      (\<exists>r. expandVariables inherited vars = Some r \<and> map fst r = map fst vars \<and>
         (\<forall>(k, v) \<in> set r. CHR ''$'' \<notin> set v \<and> refNames v = []) \<and>
         (\<forall>(k, v) \<in> set vars. map_of r k = Some (replaceRefs (lookupVar inherited r) v))))"
proof (intro conjI allI impI)
  fix r assume "expandVariables inherited vars = Some r"
  from expandVariables_result [OF this]
  show "map fst r = map fst vars" and "expandPass inherited (map fst r) r False = (r, False)"
    by blast+
next
  assume wf: "wellFormedVars inherited rank vars"
  let ?J = "Suc (Max (rank ` fst ` set vars))"
  have d0: "\<forall>k v. (k, v) \<in> set vars \<and> rank k < 0 \<longrightarrow> CHR ''$'' \<notin> set v" by simp
  have bound: "\<forall>k v. (k, v) \<in> set vars \<longrightarrow> rank k < ?J"
  proof (intro allI impI)
    fix k v assume "(k, v) \<in> set vars"
    then have "rank k \<in> rank ` fst ` set vars" by force
    then have "rank k \<le> Max (rank ` fst ` set vars)" by (intro Max_ge) simp_all
    then show "rank k < ?J" by simp
  qed
  from expandVariables_terminates [OF wf d0 bound]
  obtain r where r: "expandVariables inherited vars = Some r"
    and free: "\<forall>k v. (k, v) \<in> set r \<longrightarrow> CHR ''$'' \<notin> set v"
    by blast
  from expandVariables_values [OF r, of rank] wf
  have keys: "map fst r = map fst vars"
    and vals: "\<forall>k v. map_of vars k = Some v \<longrightarrow>
      map_of r k = Some (replaceRefs (lookupVar inherited r) v)"
    by blast+
  have 1: "\<forall>(k, v) \<in> set r. CHR ''$'' \<notin> set v \<and> refNames v = []"
    using free no_dollar_scan by blast
  have 2: "\<forall>(k, v) \<in> set vars. map_of r k = Some (replaceRefs (lookupVar inherited r) v)"
  proof (intro ballI, clarify)
    fix k v assume "(k, v) \<in> set vars"
    with wf_distinct [OF wf] have "map_of vars k = Some v" by (rule map_of_is_SomeI)
    with vals show "map_of r k = Some (replaceRefs (lookupVar inherited r) v)" by blast
  qed
  from r keys 1 2
  show "\<exists>r. expandVariables inherited vars = Some r \<and> map fst r = map fst vars \<and>
         (\<forall>(k, v) \<in> set r. CHR ''$'' \<notin> set v \<and> refNames v = []) \<and>
         (\<forall>(k, v) \<in> set vars. map_of r k = Some (replaceRefs (lookupVar inherited r) v))"
    by blast
qed

text \<open>The statement for the example record: two levels of references and one name that
  is nowhere.\<close>

lemma demo_wf: "wellFormedVars (\<lambda>name. None) demoRank demoVars"
  by (simp add: wellFormedVars_def demoVars_def demoRank_def matchRef_def)

lemma demo_run:
  "expandVariables (\<lambda>name. None) demoVars =
     Some [(''FULL'', ''db://localhost:5432?ssl=''), (''HOST'', ''localhost''),
           (''URL'', ''db://localhost:5432'')]"
  by (simp add: expandVariables.simps demoVars_def matchRef_def lookupVar_def setVar_def Let_def)

theorem expandVariables_resolves_references_witness:
  "wellFormedVars (\<lambda>name. None) demoRank demoVars \<and>
   (\<exists>r. expandVariables (\<lambda>name. None) demoVars = Some r \<and> map fst r = map fst demoVars \<and>
      map_of r ''FULL'' = Some (replaceRefs (lookupVar (\<lambda>name. None) r) ''${URL}?ssl=${SSL}'')) \<and>
   expandVariables (\<lambda>name. None) demoVars =
     Some [(''FULL'', ''db://localhost:5432?ssl=''), (''HOST'', ''localhost''),
           (''URL'', ''db://localhost:5432'')]"
proof -
  from expandVariables_resolves_references [of "\<lambda>name. None" demoVars demoRank] demo_wf
  obtain r where r: "expandVariables (\<lambda>name. None) demoVars = Some r"
    "map fst r = map fst demoVars"
    and vals: "\<forall>(k, v) \<in> set demoVars.
      map_of r k = Some (replaceRefs (lookupVar (\<lambda>name. None) r) v)"
    by blast
  have "(''FULL'', ''${URL}?ssl=${SSL}'') \<in> set demoVars" by (simp add: demoVars_def)
  with vals have "map_of r ''FULL'' =
      Some (replaceRefs (lookupVar (\<lambda>name. None) r) ''${URL}?ssl=${SSL}'')"
    by blast
  with r demo_wf demo_run show ?thesis by blast
qed

end
